theory Spec2Isabelle
  imports Main "HOL-Library.Word" "HOL-Library.Signed_Division"
begin

section \<open>sellTickets.c: a ticket counter behind a binary semaphore\<close>

text \<open>
  The program has one global counter \<open>numTickets\<close>, one semaphore \<open>ticketsLock\<close>
  created with the value 1, and \<open>NUM_SELLERS\<close> threads that all run \<open>SellTickets\<close>.
  The threads are modelled by an interleaving semantics: a state holds the globals and,
  for every seller, its program counter and its locals; a step executes one statement
  of one seller. The statement \<open>numTickets--\<close> is split into its load and its store,
  so that the atomicity of the check-and-decrement is a theorem about the semaphore
  and not a property of the step size.
\<close>

definition NUM_TICKETS :: int where
  "NUM_TICKETS = 35"

definition NUM_SELLERS :: nat where
  "NUM_SELLERS = 4"

text \<open>The program points of \<open>SellTickets\<close>, in the order of the source text.\<close>

datatype seller_pc =
    LoopTest      \<comment> \<open>\<open>while (!done)\<close>\<close>
  | Delay         \<comment> \<open>\<open>random_r\<close>, \<open>usleep\<close>\<close>
  | SemWait       \<comment> \<open>\<open>sem_wait(&ticketsLock)\<close>\<close>
  | CheckTickets  \<comment> \<open>\<open>if (numTickets == 0)\<close>\<close>
  | SetDone       \<comment> \<open>\<open>done = true\<close>\<close>
  | DecLoad       \<comment> \<open>\<open>numTickets--\<close>: the load\<close>
  | DecStore      \<comment> \<open>\<open>numTickets--\<close>: the store\<close>
  | IncSold       \<comment> \<open>\<open>numSoldByThisThread++\<close>\<close>
  | PrintSold     \<comment> \<open>\<open>printf("%s sold one (%d left)\n", ...)\<close>\<close>
  | SemPost       \<comment> \<open>\<open>sem_post(&ticketsLock)\<close>\<close>
  | PrintDone     \<comment> \<open>\<open>printf("%s noticed all tickets sold! ...")\<close>\<close>
  | Exited        \<comment> \<open>after \<open>pthread_exit\<close>\<close>

text \<open>
  The locals of one seller thread. The field \<open>is_done\<close> is the local \<open>done\<close> of the
  source; \<open>reg\<close> is the temporary that holds the value loaded by \<open>numTickets--\<close>.
\<close>

record seller =
  pc :: seller_pc
  is_done :: bool
  numSoldByThisThread :: int
  reg :: int

text \<open>The two kinds of line the sellers print, with the seller's index and the number.\<close>

datatype line =
    SoldOne nat int
  | NoticedAllSold nat int

record tickets_state =
  numTickets :: int
  ticketsLock :: nat
  sellers :: "seller list"
  printed :: "line list"

definition set_seller :: "nat \<Rightarrow> seller \<Rightarrow> tickets_state \<Rightarrow> tickets_state" where
  "set_seller i t s = s\<lparr>sellers := (sellers s)[i := t]\<rparr>"

text \<open>
  One statement of seller \<open>i\<close>. The result is \<open>None\<close> when the seller cannot move:
  it has exited, or it waits on a semaphore whose value is 0.
\<close>

definition seller_step :: "nat \<Rightarrow> tickets_state \<Rightarrow> tickets_state option" where
  "seller_step i s =
    (if length (sellers s) \<le> i then None
     else
       let t = sellers s ! i in
       case pc t of
         LoopTest \<Rightarrow>
           Some (set_seller i (t\<lparr>pc := (if is_done t then PrintDone else Delay)\<rparr>) s)
       | Delay \<Rightarrow>
           Some (set_seller i (t\<lparr>pc := SemWait\<rparr>) s)
       | SemWait \<Rightarrow>
           if ticketsLock s = 0 then None
           else Some (set_seller i (t\<lparr>pc := CheckTickets\<rparr>)
                        (s\<lparr>ticketsLock := ticketsLock s - 1\<rparr>))
       | CheckTickets \<Rightarrow>
           Some (set_seller i
                   (t\<lparr>pc := (if numTickets s = 0 then SetDone else DecLoad)\<rparr>) s)
       | SetDone \<Rightarrow>
           Some (set_seller i (t\<lparr>is_done := True, pc := SemPost\<rparr>) s)
       | DecLoad \<Rightarrow>
           Some (set_seller i (t\<lparr>reg := numTickets s, pc := DecStore\<rparr>) s)
       | DecStore \<Rightarrow>
           Some (set_seller i (t\<lparr>pc := IncSold\<rparr>) (s\<lparr>numTickets := reg t - 1\<rparr>))
       | IncSold \<Rightarrow>
           Some (set_seller i
                   (t\<lparr>numSoldByThisThread := numSoldByThisThread t + 1,
                      pc := PrintSold\<rparr>) s)
       | PrintSold \<Rightarrow>
           Some (set_seller i (t\<lparr>pc := SemPost\<rparr>)
                   (s\<lparr>printed := printed s @ [SoldOne i (numTickets s)]\<rparr>))
       | SemPost \<Rightarrow>
           Some (set_seller i (t\<lparr>pc := LoopTest\<rparr>)
                   (s\<lparr>ticketsLock := ticketsLock s + 1\<rparr>))
       | PrintDone \<Rightarrow>
           Some (set_seller i (t\<lparr>pc := Exited\<rparr>)
                   (s\<lparr>printed := printed s @ [NoticedAllSold i (numSoldByThisThread t)]\<rparr>))
       | Exited \<Rightarrow> None)"

text \<open>
  A schedule is the list of the sellers picked, one after the other. Picking a seller
  that cannot move leaves the state as it is. The states \<open>run_sellers sched s\<close>, for
  all schedules, are the states reachable from \<open>s\<close>.
\<close>

fun run_sellers :: "nat list \<Rightarrow> tickets_state \<Rightarrow> tickets_state" where
  "run_sellers [] s = s"
| "run_sellers (i # sched) s =
     (case seller_step i s of
        None \<Rightarrow> run_sellers sched s
      | Some s' \<Rightarrow> run_sellers sched s')"

text \<open>The number of statements a schedule really executes.\<close>

fun steps_taken :: "nat list \<Rightarrow> tickets_state \<Rightarrow> nat" where
  "steps_taken [] s = 0"
| "steps_taken (i # sched) s =
     (case seller_step i s of
        None \<Rightarrow> steps_taken sched s
      | Some s' \<Rightarrow> Suc (steps_taken sched s'))"

text \<open>
  The state in which \<open>main\<close> starts the threads: the counter holds the total \<open>T\<close>
  (\<open>NUM_TICKETS\<close> in the source), the semaphore holds 1, and each of the \<open>W\<close> sellers
  (\<open>NUM_SELLERS\<close> in the source) is at the head of its loop with \<open>done = false\<close> and
  \<open>numSoldByThisThread = 0\<close>.
\<close>

definition init_seller :: seller where
  "init_seller = \<lparr>pc = LoopTest, is_done = False, numSoldByThisThread = 0, reg = 0\<rparr>"

definition init_tickets :: "int \<Rightarrow> nat \<Rightarrow> tickets_state" where
  "init_tickets T W =
     \<lparr>numTickets = T, ticketsLock = 1, sellers = replicate W init_seller, printed = []\<rparr>"

definition main_tickets :: tickets_state where
  "main_tickets = init_tickets NUM_TICKETS NUM_SELLERS"

subsection \<open>Derived notions: the lock, the accounts, the termination measure\<close>

text \<open>
  The program points between \<open>sem_wait\<close> and \<open>sem_post\<close>: a seller there has taken
  the permit of \<open>ticketsLock\<close> and has not given it back.
\<close>

fun holds_lock :: "seller_pc \<Rightarrow> bool" where
  "holds_lock CheckTickets = True"
| "holds_lock SetDone = True"
| "holds_lock DecLoad = True"
| "holds_lock DecStore = True"
| "holds_lock IncSold = True"
| "holds_lock PrintSold = True"
| "holds_lock SemPost = True"
| "holds_lock _ = False"

text \<open>
  The number of sellers inside the critical section.
\<close>

definition holders :: "tickets_state \<Rightarrow> nat" where
  "holders s = length (filter (\<lambda>t. holds_lock (pc t)) (sellers s))"

text \<open>
  The number of sellers that have stored the decremented counter and have not yet
  counted the ticket in \<open>numSoldByThisThread\<close>.
\<close>

definition in_flight :: "tickets_state \<Rightarrow> nat" where
  "in_flight s = length (filter (\<lambda>t. pc t = IncSold) (sellers s))"

text \<open>
  The sum of the sellers' \<open>numSoldByThisThread\<close>.
\<close>

definition total_sold :: "tickets_state \<Rightarrow> int" where
  "total_sold s = sum_list (map numSoldByThisThread (sellers s))"

text \<open>
  The number a printed line shows.
\<close>

fun line_value :: "line \<Rightarrow> int" where
  "line_value (SoldOne i n) = n"
| "line_value (NoticedAllSold i n) = n"

text \<open>
  The count a seller reports in its last line; the other lines report none.
\<close>

fun reported :: "line \<Rightarrow> int" where
  "reported (SoldOne i n) = 0"
| "reported (NoticedAllSold i n) = n"

definition sold_if_exited :: "seller \<Rightarrow> int" where
  "sold_if_exited t = (if pc t = Exited then numSoldByThisThread t else 0)"

text \<open>
  What holds of every seller in every reachable state: its count is not negative; between
  the check and the store the counter is positive and, once loaded, equal to the loaded
  value; a seller sets or has set \<open>done\<close> only when the counter is 0; a seller past its loop
  has \<open>done\<close> set.
\<close>

definition seller_ok :: "tickets_state \<Rightarrow> seller \<Rightarrow> bool" where
  "seller_ok s t =
     (0 \<le> numSoldByThisThread t \<and>
      (pc t = DecLoad \<longrightarrow> 0 < numTickets s) \<and>
      (pc t = DecStore \<longrightarrow> reg t = numTickets s \<and> 0 < numTickets s) \<and>
      (pc t = SetDone \<longrightarrow> numTickets s = 0) \<and>
      (is_done t \<longrightarrow> numTickets s = 0) \<and>
      (pc t = PrintDone \<or> pc t = Exited \<longrightarrow> is_done t))"

text \<open>
  The invariant of the program for the initial total \<open>T\<close>.
\<close>

definition tickets_inv :: "int \<Rightarrow> tickets_state \<Rightarrow> bool" where
  "tickets_inv T s =
     (ticketsLock s + holders s = 1 \<and>
      0 \<le> numTickets s \<and>
      total_sold s + int (in_flight s) = T - numTickets s \<and>
      list_all (seller_ok s) (sellers s) \<and>
      list_all (\<lambda>l. 0 \<le> line_value l) (printed s) \<and>
      sum_list (map reported (printed s)) = sum_list (map sold_if_exited (sellers s)))"

text \<open>
  A bound on the statements a seller still executes before it sells a ticket or exits, used
  as termination measure: each ticket is worth one more turn of the loop.
\<close>

fun rank :: "seller \<Rightarrow> nat" where
  "rank t =
    (case pc t of
       Exited \<Rightarrow> 0
     | PrintDone \<Rightarrow> 1
     | LoopTest \<Rightarrow> (if is_done t then 2 else 8)
     | SemPost \<Rightarrow> (if is_done t then 3 else 9)
     | SetDone \<Rightarrow> 4
     | CheckTickets \<Rightarrow> 5
     | SemWait \<Rightarrow> 6
     | Delay \<Rightarrow> 7
     | DecLoad \<Rightarrow> 4
     | DecStore \<Rightarrow> 3
     | IncSold \<Rightarrow> 11
     | PrintSold \<Rightarrow> 10)"

definition potential :: "tickets_state \<Rightarrow> nat" where
  "potential s = 9 * nat (numTickets s) + sum_list (map rank (sellers s))"

definition all_exited :: "tickets_state \<Rightarrow> bool" where
  "all_exited s = list_all (\<lambda>t. pc t = Exited) (sellers s)"

text \<open>
  The program points of the \<open>else\<close> branch, reached only when the check found a ticket.
\<close>

fun past_check :: "seller_pc \<Rightarrow> bool" where
  "past_check DecLoad = True"
| "past_check DecStore = True"
| "past_check IncSold = True"
| "past_check PrintSold = True"
| "past_check _ = False"

fun is_sold_line :: "line \<Rightarrow> bool" where
  "is_sold_line (SoldOne i n) = True"
| "is_sold_line (NoticedAllSold i n) = False"

text \<open>
  The invariant of the runs that start with no ticket.
\<close>

definition zero_inv :: "tickets_state \<Rightarrow> bool" where
  "zero_inv s =
     (numTickets s = 0 \<and>
      list_all (\<lambda>t. numSoldByThisThread t = 0 \<and> \<not> past_check (pc t)) (sellers s) \<and>
      list_all (\<lambda>l. \<not> is_sold_line l \<and> line_value l = 0) (printed s))"



text \<open>
  Schedules used as examples: each of four sellers runs one turn of its loop; two sellers
  alternate statement by statement.
\<close>

definition one_iteration_each :: "nat list" where
  "one_iteration_each = concat (map (replicate 9) [0, 1, 2, 3])"

definition two_sellers_alternating :: "nat list" where
  "two_sellers_alternating = [0, 1, 0, 1, 0, 1, 0, 1, 0, 1]"

section \<open>readerWriter.c: one writer, one reader, a ring of five buffers\<close>

text \<open>
  \<open>main\<close> creates the semaphore \<open>emptyBuffers\<close> with the value \<open>NUM_TOTAL_BUFFERS\<close> and
  \<open>fullBuffers\<close> with the value 0, and starts one thread running \<open>Writer\<close> and one running
  \<open>Reader\<close> on the shared array \<open>buffers\<close>. As for the ticket sellers, a state holds the
  shared data and the program counter and locals of both threads, and a step executes
  one statement of one thread.
\<close>

definition NUM_TOTAL_BUFFERS :: int where
  "NUM_TOTAL_BUFFERS = 5"

definition DATA_LENGTH :: int where
  "DATA_LENGTH = 20"

text \<open>
  \<open>PrepareData\<close> returns \<open>(char)(65 + (result % 25))\<close>, where \<open>result\<close> is the number
  \<open>random_r\<close> stored; the model takes that number as its argument. The remainder of C
  truncates towards zero, which is \<open>smod\<close>. The delay (\<open>usleep\<close>) changes no data.
\<close>

definition PrepareData :: "int \<Rightarrow> 8 word" where
  "PrepareData result = of_int (65 + (result smod 25))"

datatype writer_pc =
    W_Test        \<comment> \<open>\<open>i < DATA_LENGTH\<close>\<close>
  | W_Prepare     \<comment> \<open>\<open>dataToWrite = PrepareData(writerData)\<close>\<close>
  | W_WaitEmpty   \<comment> \<open>\<open>sem_wait(data->pEmptyBuffers)\<close>\<close>
  | W_Store       \<comment> \<open>\<open>data->sharedBuffer[writePt] = dataToWrite\<close>\<close>
  | W_Print       \<comment> \<open>\<open>printf("%s: buffer[%d] = %c\n", ...)\<close>\<close>
  | W_Advance     \<comment> \<open>\<open>writePt = (writePt + 1) % NUM_TOTAL_BUFFERS\<close>\<close>
  | W_PostFull    \<comment> \<open>\<open>sem_post(data->pFullBuffers)\<close>\<close>
  | W_Incr        \<comment> \<open>\<open>i++\<close>\<close>
  | W_Exited      \<comment> \<open>after \<open>pthread_exit\<close>\<close>

datatype reader_pc =
    R_Test        \<comment> \<open>\<open>i < DATA_LENGTH\<close>\<close>
  | R_WaitFull    \<comment> \<open>\<open>sem_wait(data->pFullBuffers)\<close>\<close>
  | R_Load        \<comment> \<open>\<open>dataToRead = data->sharedBuffer[readPt]\<close>\<close>
  | R_Print       \<comment> \<open>\<open>printf("\t\t\t\t%s: buffer[%d] = %c\n", ...)\<close>\<close>
  | R_Advance     \<comment> \<open>\<open>readPt = (readPt + 1) % NUM_TOTAL_BUFFERS\<close>\<close>
  | R_PostEmpty   \<comment> \<open>\<open>sem_post(data->pEmptyBuffers)\<close>\<close>
  | R_Process     \<comment> \<open>\<open>ProcessData(readerData)\<close>\<close>
  | R_Incr        \<comment> \<open>\<open>i++\<close>\<close>
  | R_Exited      \<comment> \<open>after \<open>pthread_exit\<close>\<close>

text \<open>
  The shared data, the locals of \<open>Writer\<close> (\<open>w_i\<close> is its \<open>i\<close>) and of \<open>Reader\<close>
  (\<open>r_i\<close> is its \<open>i\<close>), and the lines each thread has printed: the index and the
  character of \<open>buffer[%d] = %c\<close>.
\<close>

record rw_state =
  emptyBuffers :: nat
  fullBuffers :: nat
  buffers :: "8 word list"
  w_pc :: writer_pc
  w_i :: int
  writePt :: int
  dataToWrite :: "8 word"
  w_out :: "(int \<times> 8 word) list"
  r_pc :: reader_pc
  r_i :: int
  readPt :: int
  dataToRead :: "8 word"
  r_out :: "(int \<times> 8 word) list"

text \<open>
  C does not check the index of \<open>sharedBuffer[writePt]\<close>. An access at an index outside
  the array goes to whatever lies at that address: the neighbours of \<open>buffers\<close> in the
  frame of \<open>main\<close>, the two semaphores among them, or an address that is not mapped, and
  then the process dies. Which of these happens is the choice of the compiler and of the
  system, not of the source, so the model takes it as a parameter: \<open>store_at m k v s\<close> is
  \<open>None\<close> when the process dies at the store of \<open>v\<close> at index \<open>k\<close>, and the state
  after the store otherwise; \<open>load_at m k s\<close> is \<open>None\<close> when the process dies at the load
  at index \<open>k\<close>, and the byte read otherwise. The thread then goes on with its next
  statement.
\<close>

record outside =
  store_at :: "int \<Rightarrow> 8 word \<Rightarrow> rw_state \<Rightarrow> rw_state option"
  load_at :: "int \<Rightarrow> rw_state \<Rightarrow> 8 word option"

text \<open>The error of a run: the process died at an access at this index.\<close>

datatype rw_error = OutOfBounds int

datatype step_result = Blocked | Fault rw_error | Next rw_state

text \<open>
  One statement of \<open>Writer\<close>. The argument \<open>rnd\<close> gives the numbers \<open>random_r\<close> produces for
  the writer: \<open>rnd k\<close> is the one of the call of \<open>PrepareData\<close> in iteration \<open>k\<close>.
\<close>

definition writer_step :: "(nat \<Rightarrow> int) \<Rightarrow> outside \<Rightarrow> rw_state \<Rightarrow> step_result" where
  "writer_step rnd m s =
    (case w_pc s of
       W_Test \<Rightarrow>
         Next (s\<lparr>w_pc := (if w_i s < DATA_LENGTH then W_Prepare else W_Exited)\<rparr>)
     | W_Prepare \<Rightarrow>
         Next (s\<lparr>dataToWrite := PrepareData (rnd (nat (w_i s))), w_pc := W_WaitEmpty\<rparr>)
     | W_WaitEmpty \<Rightarrow>
         if emptyBuffers s = 0 then Blocked
         else Next (s\<lparr>emptyBuffers := emptyBuffers s - 1, w_pc := W_Store\<rparr>)
     | W_Store \<Rightarrow>
         if 0 \<le> writePt s \<and> writePt s < NUM_TOTAL_BUFFERS
         then Next (s\<lparr>buffers := (buffers s)[nat (writePt s) := dataToWrite s],
                      w_pc := W_Print\<rparr>)
         else (case store_at m (writePt s) (dataToWrite s) s of
                 None \<Rightarrow> Fault (OutOfBounds (writePt s))
               | Some s' \<Rightarrow> Next (s'\<lparr>w_pc := W_Print\<rparr>))
     | W_Print \<Rightarrow>
         Next (s\<lparr>w_out := w_out s @ [(writePt s, dataToWrite s)], w_pc := W_Advance\<rparr>)
     | W_Advance \<Rightarrow>
         Next (s\<lparr>writePt := (writePt s + 1) smod NUM_TOTAL_BUFFERS, w_pc := W_PostFull\<rparr>)
     | W_PostFull \<Rightarrow>
         Next (s\<lparr>fullBuffers := fullBuffers s + 1, w_pc := W_Incr\<rparr>)
     | W_Incr \<Rightarrow>
         Next (s\<lparr>w_i := w_i s + 1, w_pc := W_Test\<rparr>)
     | W_Exited \<Rightarrow> Blocked)"

text \<open>One statement of \<open>Reader\<close>. \<open>ProcessData\<close> only draws a random number and sleeps.\<close>

definition reader_step :: "outside \<Rightarrow> rw_state \<Rightarrow> step_result" where
  "reader_step m s =
    (case r_pc s of
       R_Test \<Rightarrow>
         Next (s\<lparr>r_pc := (if r_i s < DATA_LENGTH then R_WaitFull else R_Exited)\<rparr>)
     | R_WaitFull \<Rightarrow>
         if fullBuffers s = 0 then Blocked
         else Next (s\<lparr>fullBuffers := fullBuffers s - 1, r_pc := R_Load\<rparr>)
     | R_Load \<Rightarrow>
         if 0 \<le> readPt s \<and> readPt s < NUM_TOTAL_BUFFERS
         then Next (s\<lparr>dataToRead := buffers s ! nat (readPt s), r_pc := R_Print\<rparr>)
         else (case load_at m (readPt s) s of
                 None \<Rightarrow> Fault (OutOfBounds (readPt s))
               | Some v \<Rightarrow> Next (s\<lparr>dataToRead := v, r_pc := R_Print\<rparr>))
     | R_Print \<Rightarrow>
         Next (s\<lparr>r_out := r_out s @ [(readPt s, dataToRead s)], r_pc := R_Advance\<rparr>)
     | R_Advance \<Rightarrow>
         Next (s\<lparr>readPt := (readPt s + 1) smod NUM_TOTAL_BUFFERS, r_pc := R_PostEmpty\<rparr>)
     | R_PostEmpty \<Rightarrow>
         Next (s\<lparr>emptyBuffers := emptyBuffers s + 1, r_pc := R_Process\<rparr>)
     | R_Process \<Rightarrow>
         Next (s\<lparr>r_pc := R_Incr\<rparr>)
     | R_Incr \<Rightarrow>
         Next (s\<lparr>r_i := r_i s + 1, r_pc := R_Test\<rparr>)
     | R_Exited \<Rightarrow> Blocked)"

datatype thread = Writer | Reader

fun rw_step :: "(nat \<Rightarrow> int) \<Rightarrow> outside \<Rightarrow> thread \<Rightarrow> rw_state \<Rightarrow> step_result" where
  "rw_step rnd m Writer s = writer_step rnd m s"
| "rw_step rnd m Reader s = reader_step m s"

text \<open>
  A run under a schedule: the thread picked executes its next statement, or is passed
  over when it is blocked; the run ends with the error when the process dies.
\<close>

fun run_rw ::
  "(nat \<Rightarrow> int) \<Rightarrow> outside \<Rightarrow> thread list \<Rightarrow> rw_state \<Rightarrow> rw_error + rw_state" where
  "run_rw rnd m [] s = Inr s"
| "run_rw rnd m (t # sched) s =
     (case rw_step rnd m t s of
        Blocked \<Rightarrow> run_rw rnd m sched s
      | Fault e \<Rightarrow> Inl e
      | Next s' \<Rightarrow> run_rw rnd m sched s')"

fun rw_steps_taken :: "(nat \<Rightarrow> int) \<Rightarrow> outside \<Rightarrow> thread list \<Rightarrow> rw_state \<Rightarrow> nat" where
  "rw_steps_taken rnd m [] s = 0"
| "rw_steps_taken rnd m (t # sched) s =
     (case rw_step rnd m t s of
        Blocked \<Rightarrow> rw_steps_taken rnd m sched s
      | Fault e \<Rightarrow> 0
      | Next s' \<Rightarrow> Suc (rw_steps_taken rnd m sched s'))"

text \<open>
  The state in which the two threads start. \<open>Reader\<close> declares \<open>int i, readPt = 0\<close>, but
  \<open>Writer\<close> declares \<open>int i, writePt\<close> with no initial value and reads \<open>writePt\<close> in its
  first iteration: the value it finds there is the parameter \<open>writePt0\<close>. The array
  \<open>buffers\<close> of \<open>main\<close> is not initialised either; \<open>garbage\<close> gives its first contents.
  The locals \<open>dataToWrite\<close> and \<open>dataToRead\<close> are assigned before they are read, and both
  loops start with \<open>i = 0\<close>.
\<close>

definition init_rw :: "int \<Rightarrow> (nat \<Rightarrow> 8 word) \<Rightarrow> rw_state" where
  "init_rw writePt0 garbage =
     \<lparr>emptyBuffers = nat NUM_TOTAL_BUFFERS, fullBuffers = 0,
      buffers = map garbage [0 ..< nat NUM_TOTAL_BUFFERS],
      w_pc = W_Test, w_i = 0, writePt = writePt0, dataToWrite = 0, w_out = [],
      r_pc = R_Test, r_i = 0, readPt = 0, dataToRead = 0, r_out = []\<rparr>"

subsection \<open>Derived notions: permits taken and given, the termination measure\<close>

text \<open>
  Where each thread stands in its iteration: 1 from the named statement on, through the
  \<open>i++\<close> that ends the iteration, and 0 before it. With the loop counter they count the
  permits a thread has taken and given and the lines it has printed.
\<close>

fun w_past_wait :: "writer_pc \<Rightarrow> int" where
  "w_past_wait W_Store = 1"
| "w_past_wait W_Print = 1"
| "w_past_wait W_Advance = 1"
| "w_past_wait W_PostFull = 1"
| "w_past_wait W_Incr = 1"
| "w_past_wait _ = 0"

fun w_past_print :: "writer_pc \<Rightarrow> int" where
  "w_past_print W_Advance = 1"
| "w_past_print W_PostFull = 1"
| "w_past_print W_Incr = 1"
| "w_past_print _ = 0"

fun w_past_post :: "writer_pc \<Rightarrow> int" where
  "w_past_post W_Incr = 1"
| "w_past_post _ = 0"

fun r_past_wait :: "reader_pc \<Rightarrow> int" where
  "r_past_wait R_Load = 1"
| "r_past_wait R_Print = 1"
| "r_past_wait R_Advance = 1"
| "r_past_wait R_PostEmpty = 1"
| "r_past_wait R_Process = 1"
| "r_past_wait R_Incr = 1"
| "r_past_wait _ = 0"

fun r_past_print :: "reader_pc \<Rightarrow> int" where
  "r_past_print R_Advance = 1"
| "r_past_print R_PostEmpty = 1"
| "r_past_print R_Process = 1"
| "r_past_print R_Incr = 1"
| "r_past_print _ = 0"

fun r_past_post :: "reader_pc \<Rightarrow> int" where
  "r_past_post R_Process = 1"
| "r_past_post R_Incr = 1"
| "r_past_post _ = 0"

fun w_past_store :: "writer_pc \<Rightarrow> int" where
  "w_past_store W_Print = 1"
| "w_past_store W_Advance = 1"
| "w_past_store W_PostFull = 1"
| "w_past_store W_Incr = 1"
| "w_past_store _ = 0"

text \<open>
  A thread is in the middle of an operation between its \<open>sem_wait\<close> and its \<open>sem_post\<close>:
  it has taken a permit of one semaphore and not yet given one to the other. A state is
  quiescent when neither thread is.
\<close>

definition w_holds :: "rw_state \<Rightarrow> bool" where
  "w_holds s = (w_past_wait (w_pc s) = 1 \<and> w_past_post (w_pc s) = 0)"

definition r_holds :: "rw_state \<Rightarrow> bool" where
  "r_holds s = (r_past_wait (r_pc s) = 1 \<and> r_past_post (r_pc s) = 0)"

definition quiescent :: "rw_state \<Rightarrow> bool" where
  "quiescent s = (\<not> w_holds s \<and> \<not> r_holds s)"

definition both_exited :: "rw_state \<Rightarrow> bool" where
  "both_exited s = (w_pc s = W_Exited \<and> r_pc s = R_Exited)"

text \<open>
  The indices of \<open>char buffers[NUM_TOTAL_BUFFERS]\<close>.
\<close>

definition in_buffer :: "int \<Rightarrow> bool" where
  "in_buffer k = (0 \<le> k \<and> k < NUM_TOTAL_BUFFERS)"

text \<open>
  The invariant of the runs in which \<open>writePt\<close> starts as an index of the array, in three
  parts. For the writer: the loop counter stays within 0 and \<open>DATA_LENGTH\<close> and is below
  it inside the loop body; \<open>writePt\<close> is an index of the array; one line is printed per
  iteration.
\<close>

definition w_inv :: "rw_state \<Rightarrow> bool" where
  "w_inv s =
     (0 \<le> w_i s \<and> w_i s \<le> 20 \<and>
      (w_pc s \<noteq> W_Test \<and> w_pc s \<noteq> W_Exited \<longrightarrow> w_i s < 20) \<and>
      (w_pc s = W_Exited \<longrightarrow> w_i s = 20) \<and>
      in_buffer (writePt s) \<and>
      int (length (w_out s)) = w_i s + w_past_print (w_pc s))"

text \<open>
  For the reader: the same bounds, and \<open>readPt\<close> is always a valid index.
\<close>

definition r_inv :: "rw_state \<Rightarrow> bool" where
  "r_inv s =
     (0 \<le> r_i s \<and> r_i s \<le> 20 \<and>
      (r_pc s \<noteq> R_Test \<and> r_pc s \<noteq> R_Exited \<longrightarrow> r_i s < 20) \<and>
      (r_pc s = R_Exited \<longrightarrow> r_i s = 20) \<and>
      in_buffer (readPt s) \<and>
      int (length (r_out s)) = r_i s + r_past_print (r_pc s))"

text \<open>
  For the semaphores: the array has its five elements; the value of \<open>emptyBuffers\<close> is 5
  less the permits the writer has taken plus those the reader has given; the value of
  \<open>fullBuffers\<close> is the permits the writer has given less those the reader has taken.
\<close>

definition sem_inv :: "rw_state \<Rightarrow> bool" where
  "sem_inv s =
     (length (buffers s) = 5 \<and>
      int (emptyBuffers s) + (w_i s + w_past_wait (w_pc s)) =
        5 + (r_i s + r_past_post (r_pc s)) \<and>
      int (fullBuffers s) + (r_i s + r_past_wait (r_pc s)) =
        w_i s + w_past_post (w_pc s))"

definition rw_inv :: "rw_state \<Rightarrow> bool" where
  "rw_inv s = (w_inv s \<and> r_inv s \<and> sem_inv s)"

text \<open>
  What holds, before the first store, of the runs in which \<open>writePt\<close> starts at \<open>k\<close>: the
  writer is in its first iteration, not past the store, and \<open>writePt\<close> still holds \<open>k\<close>;
  nothing has been put, so the reader waits in its first iteration; no line is printed.
\<close>

definition before_first_store :: "int \<Rightarrow> rw_state \<Rightarrow> bool" where
  "before_first_store k s =
     (w_i s = 0 \<and> w_past_store (w_pc s) = 0 \<and> w_pc s \<noteq> W_Exited \<and> writePt s = k \<and>
      fullBuffers s = 0 \<and> r_i s = 0 \<and> (r_pc s = R_Test \<or> r_pc s = R_WaitFull) \<and>
      w_out s = [] \<and> r_out s = [])"

text \<open>
  The termination measure: the statements a thread has left to execute, eight in each
  iteration and the last loop test.
\<close>

fun w_left :: "writer_pc \<Rightarrow> nat" where
  "w_left W_Prepare = 8"
| "w_left W_WaitEmpty = 7"
| "w_left W_Store = 6"
| "w_left W_Print = 5"
| "w_left W_Advance = 4"
| "w_left W_PostFull = 3"
| "w_left W_Incr = 2"
| "w_left _ = 0"

fun r_left :: "reader_pc \<Rightarrow> nat" where
  "r_left R_WaitFull = 8"
| "r_left R_Load = 7"
| "r_left R_Print = 6"
| "r_left R_Advance = 5"
| "r_left R_PostEmpty = 4"
| "r_left R_Process = 3"
| "r_left R_Incr = 2"
| "r_left _ = 0"

definition w_rank :: "rw_state \<Rightarrow> nat" where
  "w_rank s =
     (if w_pc s = W_Exited then 0
      else if w_pc s = W_Test then 8 * nat (DATA_LENGTH - w_i s) + 1
      else 8 * nat (DATA_LENGTH - 1 - w_i s) + w_left (w_pc s))"

definition r_rank :: "rw_state \<Rightarrow> nat" where
  "r_rank s =
     (if r_pc s = R_Exited then 0
      else if r_pc s = R_Test then 8 * nat (DATA_LENGTH - r_i s) + 1
      else 8 * nat (DATA_LENGTH - 1 - r_i s) + r_left (r_pc s))"

definition rw_potential :: "rw_state \<Rightarrow> nat" where
  "rw_potential s = w_rank s + r_rank s"

subsection \<open>Derived notions: the order of the items\<close>

text \<open>
  More of the same marks, for the order of the data: from \<open>PrepareData\<close>, the store and the
  advance of \<open>writePt\<close> on in the writer, from the load and the advance of \<open>readPt\<close> on in
  the reader.
\<close>

fun w_past_prepare :: "writer_pc \<Rightarrow> int" where
  "w_past_prepare W_Test = 0"
| "w_past_prepare W_Prepare = 0"
| "w_past_prepare W_Exited = 0"
| "w_past_prepare _ = 1"

fun w_past_advance :: "writer_pc \<Rightarrow> int" where
  "w_past_advance W_PostFull = 1"
| "w_past_advance W_Incr = 1"
| "w_past_advance _ = 0"

fun r_past_load :: "reader_pc \<Rightarrow> int" where
  "r_past_load R_Print = 1"
| "r_past_load R_Advance = 1"
| "r_past_load R_PostEmpty = 1"
| "r_past_load R_Process = 1"
| "r_past_load R_Incr = 1"
| "r_past_load _ = 0"

fun r_past_advance :: "reader_pc \<Rightarrow> int" where
  "r_past_advance R_PostEmpty = 1"
| "r_past_advance R_Process = 1"
| "r_past_advance R_Incr = 1"
| "r_past_advance _ = 0"

text \<open>
  The lines of a thread that puts or takes the items in order and goes round the ring from
  slot 0: item \<open>k\<close>, the character prepared in iteration \<open>k\<close>, at slot \<open>k mod 5\<close>.
\<close>

definition ring_log :: "(nat \<Rightarrow> int) \<Rightarrow> nat \<Rightarrow> (int \<times> 8 word) list" where
  "ring_log rnd n = map (\<lambda>k. (int k mod NUM_TOTAL_BUFFERS, PrepareData (rnd k))) [0 ..< n]"

text \<open>
  The invariant of the runs in which \<open>writePt\<close> starts at 0. Each cursor is the number of
  items the thread has passed, modulo 5; the local of each thread holds the item of its
  iteration; each thread has printed its items in order; and every slot written and not
  yet released by the reader holds its item.
\<close>

definition w_fifo :: "(nat \<Rightarrow> int) \<Rightarrow> rw_state \<Rightarrow> bool" where
  "w_fifo rnd s =
     (writePt s = (w_i s + w_past_advance (w_pc s)) mod 5 \<and>
      (w_past_prepare (w_pc s) = 1 \<longrightarrow> dataToWrite s = PrepareData (rnd (nat (w_i s)))) \<and>
      w_out s = ring_log rnd (length (w_out s)))"

definition r_fifo :: "(nat \<Rightarrow> int) \<Rightarrow> rw_state \<Rightarrow> bool" where
  "r_fifo rnd s =
     (readPt s = (r_i s + r_past_advance (r_pc s)) mod 5 \<and>
      (r_past_load (r_pc s) = 1 \<longrightarrow> dataToRead s = PrepareData (rnd (nat (r_i s)))) \<and>
      r_out s = ring_log rnd (length (r_out s)))"

definition buf_fifo :: "(nat \<Rightarrow> int) \<Rightarrow> rw_state \<Rightarrow> bool" where
  "buf_fifo rnd s =
     (\<forall>k. r_i s + r_past_post (r_pc s) \<le> k \<and> k < w_i s + w_past_store (w_pc s) \<longrightarrow>
        buffers s ! nat (k mod 5) = PrepareData (rnd (nat k)))"

definition fifo_inv :: "(nat \<Rightarrow> int) \<Rightarrow> rw_state \<Rightarrow> bool" where
  "fifo_inv rnd s = (w_fifo rnd s \<and> r_fifo rnd s \<and> buf_fifo rnd s)"

subsection \<open>Inputs used as examples\<close>

text \<open>
  \<open>random_r\<close> gives 0, 1, 2, ... (so the data are the letters from \<open>A\<close> on), the array
  starts filled with zero bytes, and the schedules let the writer run whole iterations
  before the reader runs.
\<close>

definition rnd_count :: "nat \<Rightarrow> int" where
  "rnd_count k = int k"

definition zeros :: "nat \<Rightarrow> 8 word" where
  "zeros k = 0"

definition one_put :: "thread list" where
  "one_put = [Writer, Writer, Writer, Writer, Writer, Writer, Writer, Writer]"

definition one_put_one_take :: "thread list" where
  "one_put_one_take = replicate 8 Writer @ replicate 8 Reader"

definition three_puts_one_take :: "thread list" where
  "three_puts_one_take = replicate 24 Writer @ replicate 7 Reader"

text \<open>
  Three machines. On the first every access outside the array is to an address that is
  not mapped: the process dies. On the second every store outside the array lands on the
  third byte of the count of \<open>fullBuffers\<close> (the count is little-endian and the other
  bytes keep their value). On the third the stores outside the array land on bytes the
  program never uses, and the loads there read zero bytes.
\<close>

definition dies :: outside where
  "dies = \<lparr>store_at = (\<lambda>k v s. None), load_at = (\<lambda>k s. None)\<rparr>"

definition hits_fullBuffers :: outside where
  "hits_fullBuffers =
     \<lparr>store_at = (\<lambda>k v s. Some (s\<lparr>fullBuffers :=
           fullBuffers s mod 65536 + 65536 * unat v +
           16777216 * (fullBuffers s div 16777216)\<rparr>)),
      load_at = (\<lambda>k s. None)\<rparr>"

definition lands_elsewhere :: outside where
  "lands_elsewhere = \<lparr>store_at = (\<lambda>k v s. Some s), load_at = (\<lambda>k s. Some 0)\<rparr>"

section \<open>sellTickets.c: the proofs\<close>

subsection \<open>Counting in lists of threads\<close>

lemma count_update:
  "i < length xs \<Longrightarrow>
   length (filter P (xs[i := y])) + (if P (xs ! i) then 1 else 0) =
   length (filter P xs) + (if P y then 1 else 0)"
proof (induction xs arbitrary: i)
  case Nil
  then show ?case by simp
next
  case (Cons x xs)
  then show ?case by (cases i) auto
qed

lemma sum_update:
  fixes f :: "'a \<Rightarrow> int"
  shows "i < length xs \<Longrightarrow>
   sum_list (map f (xs[i := y])) = sum_list (map f xs) - f (xs ! i) + f y"
proof (induction xs arbitrary: i)
  case Nil
  then show ?case by simp
next
  case (Cons x xs)
  then show ?case by (cases i) auto
qed

lemma count_pos: "i < length xs \<Longrightarrow> P (xs ! i) \<Longrightarrow> 0 < length (filter P xs)"
  by (metis filter_empty_conv length_greater_0_conv nth_mem)

lemma count_two:
  "i < length xs \<Longrightarrow> j < length xs \<Longrightarrow> i \<noteq> j \<Longrightarrow> P (xs ! i) \<Longrightarrow> P (xs ! j) \<Longrightarrow>
   2 \<le> length (filter P xs)"
proof (induction xs arbitrary: i j)
  case Nil
  then show ?case by simp
next
  case (Cons x xs)
  show ?case
  proof (cases i)
    case 0
    then obtain j' where j': "j = Suc j'" using Cons.prems by (cases j) auto
    then have "0 < length (filter P xs)" using Cons.prems count_pos [of j' xs P] by simp
    then have "Suc 0 \<le> length (filter P xs)" by (simp add: Suc_le_eq)
    then show ?thesis using Cons.prems 0 by simp
  next
    case (Suc i')
    show ?thesis
    proof (cases j)
      case 0
      have "0 < length (filter P xs)" using Cons.prems Suc count_pos [of i' xs P] by simp
      then have "Suc 0 \<le> length (filter P xs)" by (simp add: Suc_le_eq)
      then show ?thesis using Cons.prems 0 by simp
    next
      case (Suc j')
      then have "2 \<le> length (filter P xs)"
        using Cons.prems \<open>i = Suc i'\<close> Cons.IH [of i' j'] by simp
      then show ?thesis by simp
    qed
  qed
qed

lemma only_holder:
  assumes "length (filter P xs) \<le> 1" "i < length xs" "P (xs ! i)" "j < length xs" "j \<noteq> i"
  shows "\<not> P (xs ! j)"
  using assms count_two [of i xs j P] by auto

subsection \<open>The invariant is kept by every statement\<close>

lemma holders_set_seller:
  "i < length (sellers s) \<Longrightarrow>
   holders (set_seller i t' s) + (if holds_lock (pc (sellers s ! i)) then 1 else 0) =
   holders s + (if holds_lock (pc t') then 1 else 0)"
  unfolding holders_def set_seller_def
  using count_update [of i "sellers s" "\<lambda>t. holds_lock (pc t)" t'] by simp

lemma in_flight_set_seller:
  "i < length (sellers s) \<Longrightarrow>
   in_flight (set_seller i t' s) + (if pc (sellers s ! i) = IncSold then 1 else 0) =
   in_flight s + (if pc t' = IncSold then 1 else 0)"
  unfolding in_flight_def set_seller_def
  using count_update [of i "sellers s" "\<lambda>t. pc t = IncSold" t'] by simp

lemma total_sold_set_seller:
  "i < length (sellers s) \<Longrightarrow>
   total_sold (set_seller i t' s) =
   total_sold s - numSoldByThisThread (sellers s ! i) + numSoldByThisThread t'"
  unfolding total_sold_def set_seller_def
  using sum_update [of i "sellers s" numSoldByThisThread t'] by simp

lemma other_not_holder:
  assumes "ticketsLock s + holders s = 1" "i < length (sellers s)"
    "holds_lock (pc (sellers s ! i))" "j < length (sellers s)" "j \<noteq> i"
  shows "\<not> holds_lock (pc (sellers s ! j))"
  using assms only_holder [of "\<lambda>t. holds_lock (pc t)" "sellers s" i j]
  unfolding holders_def by simp

lemma list_all_updateI:
  assumes "\<And>j. j < length xs \<Longrightarrow> j \<noteq> i \<Longrightarrow> Q (xs ! j)" "Q y"
  shows "list_all Q (xs[i := y])"
proof (cases "i < length xs")
  case True
  then show ?thesis using assms by (simp add: list_all_length nth_list_update)
next
  case False
  then show ?thesis using assms by (simp add: list_all_length)
qed

lemma step_in_range: "seller_step i s = Some s' \<Longrightarrow> i < length (sellers s)"
  by (simp add: seller_step_def split: if_splits)

lemma tickets_inv_set_seller:
  assumes "i < length (sellers s)" and "sellers s0 = sellers s"
    and "ticketsLock s0 + holders s + (if holds_lock (pc t') then 1 else 0) =
         1 + (if holds_lock (pc (sellers s ! i)) then 1 else 0)"
    and "0 \<le> numTickets s0"
    and "total_sold s - numSoldByThisThread (sellers s ! i) + numSoldByThisThread t' +
           int (in_flight s) + (if pc t' = IncSold then 1 else 0) =
         T - numTickets s0 + (if pc (sellers s ! i) = IncSold then 1 else 0)"
    and "seller_ok s0 t'"
    and "\<And>j. j < length (sellers s) \<Longrightarrow> j \<noteq> i \<Longrightarrow> seller_ok s0 (sellers s ! j)"
    and "list_all (\<lambda>l. 0 \<le> line_value l) (printed s0)"
    and "sum_list (map reported (printed s0)) =
         sum_list (map sold_if_exited (sellers s)) - sold_if_exited (sellers s ! i) +
           sold_if_exited t'"
  shows "tickets_inv T (set_seller i t' s0)"
proof -
  have i0: "i < length (sellers s0)" using assms(1,2) by simp
  have h: "holders s0 = holders s" and f: "in_flight s0 = in_flight s"
    and ts: "total_sold s0 = total_sold s"
    using assms(2) by (simp_all add: holders_def in_flight_def total_sold_def)
  have ok: "\<And>u. seller_ok (set_seller i t' s0) u = seller_ok s0 u"
    by (simp add: seller_ok_def set_seller_def)
  have 1: "ticketsLock (set_seller i t' s0) + holders (set_seller i t' s0) = 1"
    using holders_set_seller [OF i0, of t'] assms(2,3) h
    by (simp add: set_seller_def split: if_splits)
  have 2: "0 \<le> numTickets (set_seller i t' s0)"
    using assms(4) by (simp add: set_seller_def)
  have 3: "total_sold (set_seller i t' s0) + int (in_flight (set_seller i t' s0)) =
      T - numTickets (set_seller i t' s0)"
    using in_flight_set_seller [OF i0, of t'] total_sold_set_seller [OF i0, of t']
      assms(2,5) f ts
    by (simp add: set_seller_def split: if_splits)
  have 4: "list_all (seller_ok (set_seller i t' s0)) (sellers (set_seller i t' s0))"
    unfolding ok using assms(2,6,7)
    by (simp add: set_seller_def list_all_updateI)
  have 5: "list_all (\<lambda>l. 0 \<le> line_value l) (printed (set_seller i t' s0))"
    using assms(8) by (simp add: set_seller_def)
  have 6: "sum_list (map reported (printed (set_seller i t' s0))) =
      sum_list (map sold_if_exited (sellers (set_seller i t' s0)))"
    using assms(2,9) sum_update [OF i0, of sold_if_exited t']
    by (simp add: set_seller_def)
  show ?thesis
    unfolding tickets_inv_def using 1 2 3 4 5 6 by simp
qed

lemma tickets_inv_step:
  assumes inv: "tickets_inv T s" and step: "seller_step i s = Some s'"
  shows "tickets_inv T s'"
proof -
  have i: "i < length (sellers s)" using step by (rule step_in_range)
  define t where "t = sellers s ! i"
  have lock: "ticketsLock s + holders s = 1" and nonneg: "0 \<le> numTickets s"
    and sum: "total_sold s + int (in_flight s) = T - numTickets s"
    and all: "\<And>j. j < length (sellers s) \<Longrightarrow> seller_ok s (sellers s ! j)"
    and out: "list_all (\<lambda>l. 0 \<le> line_value l) (printed s)"
    and rep: "sum_list (map reported (printed s)) = sum_list (map sold_if_exited (sellers s))"
    using inv by (auto simp: tickets_inv_def list_all_length)
  have t: "seller_ok s t" using all [OF i] by (simp add: t_def)
  have excl: "\<And>j. holds_lock (pc t) \<Longrightarrow> j < length (sellers s) \<Longrightarrow> j \<noteq> i \<Longrightarrow>
      \<not> holds_lock (pc (sellers s ! j))"
    using other_not_holder [OF lock i] by (simp add: t_def)
  have others: "\<And>j. j < length (sellers s) \<Longrightarrow> j \<noteq> i \<Longrightarrow>
      seller_ok s (sellers s ! j) \<and> (holds_lock (pc t) \<longrightarrow> \<not> holds_lock (pc (sellers s ! j)))"
    using all excl by blast
  note facts = step i lock nonneg sum t out rep others
  note defs = seller_step_def t_def [symmetric] seller_ok_def sold_if_exited_def
  have "\<exists>t' s0. s' = set_seller i t' s0 \<and> sellers s0 = sellers s \<and>
      ticketsLock s0 + holders s + (if holds_lock (pc t') then 1 else 0) =
        1 + (if holds_lock (pc t) then 1 else 0) \<and>
      0 \<le> numTickets s0 \<and>
      total_sold s - numSoldByThisThread t + numSoldByThisThread t' +
        int (in_flight s) + (if pc t' = IncSold then 1 else 0) =
        T - numTickets s0 + (if pc t = IncSold then 1 else 0) \<and>
      seller_ok s0 t' \<and>
      (\<forall>j. j < length (sellers s) \<longrightarrow> j \<noteq> i \<longrightarrow> seller_ok s0 (sellers s ! j)) \<and>
      list_all (\<lambda>l. 0 \<le> line_value l) (printed s0) \<and>
      sum_list (map reported (printed s0)) =
        sum_list (map sold_if_exited (sellers s)) - sold_if_exited t + sold_if_exited t'"
    (is "?step")
  proof (cases "pc t")
    case LoopTest
    then show ?thesis
      using facts
      by (intro exI [of _ "t\<lparr>pc := (if is_done t then PrintDone else Delay)\<rparr>"]
          exI [of _ "s"])
        (auto simp: defs split: if_splits)
  next
    case Delay
    then show ?thesis
      using facts
      by (intro exI [of _ "t\<lparr>pc := SemWait\<rparr>"]
          exI [of _ "s"])
        (auto simp: defs split: if_splits)
  next
    case SemWait
    then show ?thesis
      using facts
      by (intro exI [of _ "t\<lparr>pc := CheckTickets\<rparr>"]
          exI [of _ "s\<lparr>ticketsLock := ticketsLock s - 1\<rparr>"])
        (auto simp: defs split: if_splits)
  next
    case CheckTickets
    then show ?thesis
      using facts
      by (intro exI [of _ "t\<lparr>pc := (if numTickets s = 0 then SetDone else DecLoad)\<rparr>"]
          exI [of _ "s"])
        (auto simp: defs split: if_splits)
  next
    case SetDone
    then show ?thesis
      using facts
      by (intro exI [of _ "t\<lparr>is_done := True, pc := SemPost\<rparr>"]
          exI [of _ "s"])
        (auto simp: defs split: if_splits)
  next
    case DecLoad
    then show ?thesis
      using facts
      by (intro exI [of _ "t\<lparr>reg := numTickets s, pc := DecStore\<rparr>"]
          exI [of _ "s"])
        (auto simp: defs split: if_splits)
  next
    case DecStore
    have "seller_ok (s\<lparr>numTickets := reg t - 1\<rparr>) (sellers s ! j)"
      if "j < length (sellers s)" "j \<noteq> i" for j
      using that all [of j] excl [of j] DecStore t by (auto simp: seller_ok_def)
    with DecStore show ?thesis
      using facts
      by (intro exI [of _ "t\<lparr>pc := IncSold\<rparr>"]
          exI [of _ "s\<lparr>numTickets := reg t - 1\<rparr>"])
        (auto simp: defs split: if_splits)
  next
    case IncSold
    then show ?thesis
      using facts
      by (intro exI [of _ "t\<lparr>numSoldByThisThread := numSoldByThisThread t + 1, pc := PrintSold\<rparr>"]
          exI [of _ "s"])
        (auto simp: defs split: if_splits)
  next
    case PrintSold
    then show ?thesis
      using facts
      by (intro exI [of _ "t\<lparr>pc := SemPost\<rparr>"]
          exI [of _ "s\<lparr>printed := printed s @ [SoldOne i (numTickets s)]\<rparr>"])
        (auto simp: defs split: if_splits)
  next
    case SemPost
    then show ?thesis
      using facts
      by (intro exI [of _ "t\<lparr>pc := LoopTest\<rparr>"]
          exI [of _ "s\<lparr>ticketsLock := ticketsLock s + 1\<rparr>"])
        (auto simp: defs split: if_splits)
  next
    case PrintDone
    then show ?thesis
      using facts
      by (intro exI [of _ "t\<lparr>pc := Exited\<rparr>"]
          exI [of _ "s\<lparr>printed := printed s @ [NoticedAllSold i (numSoldByThisThread t)]\<rparr>"])
        (auto simp: defs split: if_splits)
  next
    case Exited
    then show ?thesis using step i by (simp add: seller_step_def t_def)
  qed
  then show ?thesis
    using i tickets_inv_set_seller [where s = s and i = i and T = T]
    unfolding t_def by blast
qed

lemma tickets_inv_init: "0 \<le> T \<Longrightarrow> tickets_inv T (init_tickets T W)"
  by (simp add: tickets_inv_def init_tickets_def init_seller_def holders_def in_flight_def
      total_sold_def seller_ok_def sold_if_exited_def list_all_iff sum_list_replicate)

lemma tickets_inv_run: "tickets_inv T s \<Longrightarrow> tickets_inv T (run_sellers sched s)"
proof (induction sched arbitrary: s)
  case Nil
  then show ?case by simp
next
  case (Cons i sched)
  then show ?case by (auto split: option.splits dest: tickets_inv_step)
qed

subsection \<open>Termination and progress\<close>

lemma potential_step:
  assumes inv: "tickets_inv T s" and step: "seller_step i s = Some s'"
  shows "potential s' < potential s"
proof -
  have i: "i < length (sellers s)" using step by (rule step_in_range)
  define t where "t = sellers s ! i"
  define R where "R = sum_list (map rank (sellers s))"
  have t: "seller_ok s t" and nonneg: "0 \<le> numTickets s"
    using inv i by (auto simp: tickets_inv_def list_all_length t_def)
  have le: "rank t \<le> R"
    unfolding R_def t_def using i by (simp add: member_le_sum_list)
  have upd: "\<And>t'. sum_list (map rank ((sellers s)[i := t'])) = R + rank t' - rank t"
    unfolding R_def t_def using i by (simp add: sum_list_update map_update)
  have "potential s' + 1 \<le> 9 * nat (numTickets s) + R"
    using step i t nonneg le
    by (cases "pc t")
      (auto simp: seller_step_def t_def [symmetric] potential_def set_seller_def seller_ok_def
        upd nat_diff_distrib split: if_splits)
  then show ?thesis by (simp add: potential_def R_def)
qed

lemma run_sellers_append:
  "run_sellers (sched @ sched') s = run_sellers sched' (run_sellers sched s)"
  by (induction sched arbitrary: s) (auto split: option.splits)

lemma steps_bounded:
  "tickets_inv T s \<Longrightarrow> steps_taken sched s + potential (run_sellers sched s) \<le> potential s"
proof (induction sched arbitrary: s)
  case Nil
  then show ?case by simp
next
  case (Cons i sched)
  show ?case
  proof (cases "seller_step i s")
    case None
    then show ?thesis using Cons by simp
  next
    case (Some s')
    have "tickets_inv T s'" using Cons.prems Some by (rule tickets_inv_step)
    then have "steps_taken sched s' + potential (run_sellers sched s') \<le> potential s'"
      by (rule Cons.IH)
    moreover have "potential s' < potential s" using Cons.prems Some by (rule potential_step)
    ultimately show ?thesis using Some by simp
  qed
qed

lemma holder_exists:
  "0 < length (filter P xs) \<Longrightarrow> \<exists>k < length xs. P (xs ! k)"
  by (metis filter_False in_set_conv_nth length_greater_0_conv list.size(3))

lemma progress:
  assumes inv: "tickets_inv T s" and live: "\<not> all_exited s"
  shows "\<exists>i < length (sellers s). seller_step i s \<noteq> None"
proof (cases "ticketsLock s = 0")
  case True
  then have "0 < holders s" using inv by (simp add: tickets_inv_def)
  then obtain k where k: "k < length (sellers s)" "holds_lock (pc (sellers s ! k))"
    unfolding holders_def using holder_exists [of "\<lambda>t. holds_lock (pc t)" "sellers s"] by auto
  then have "seller_step k s \<noteq> None"
    by (cases "pc (sellers s ! k)") (simp_all add: seller_step_def Let_def)
  then show ?thesis using k by blast
next
  case False
  obtain j where j: "j < length (sellers s)" "pc (sellers s ! j) \<noteq> Exited"
    using live by (auto simp: all_exited_def list_all_length)
  then have "seller_step j s \<noteq> None"
    using False by (cases "pc (sellers s ! j)") (simp_all add: seller_step_def Let_def)
  then show ?thesis using j by blast
qed

subsection \<open>The counter along a run\<close>

lemma numTickets_step:
  assumes inv: "tickets_inv T s" and step: "seller_step i s = Some s'"
  shows "numTickets s' \<le> numTickets s \<and> numTickets s - 1 \<le> numTickets s'"
proof -
  have i: "i < length (sellers s)" using step by (rule step_in_range)
  have "seller_ok s (sellers s ! i)"
    using inv i by (simp add: tickets_inv_def list_all_length)
  then show ?thesis
    using step i
    by (cases "pc (sellers s ! i)")
      (auto simp: seller_step_def set_seller_def seller_ok_def Let_def split: if_splits)
qed

lemma numTickets_run:
  "tickets_inv T s \<Longrightarrow> numTickets (run_sellers sched s) \<le> numTickets s"
proof (induction sched arbitrary: s)
  case Nil
  then show ?case by simp
next
  case (Cons i sched)
  show ?case
  proof (cases "seller_step i s")
    case None
    then show ?thesis using Cons by simp
  next
    case (Some s')
    have "tickets_inv T s'" using Cons.prems Some by (rule tickets_inv_step)
    then have "numTickets (run_sellers sched s') \<le> numTickets s'" by (rule Cons.IH)
    moreover have "numTickets s' \<le> numTickets s"
      using numTickets_step [OF Cons.prems Some] by simp
    ultimately show ?thesis using Some by simp
  qed
qed

subsection \<open>Runs without tickets\<close>

lemma zero_inv_step:
  assumes inv: "zero_inv s" and step: "seller_step i s = Some s'"
  shows "zero_inv s' \<and> potential s' + 1 = potential s"
proof -
  have i: "i < length (sellers s)" using step by (rule step_in_range)
  define t where "t = sellers s ! i"
  define R where "R = sum_list (map rank (sellers s))"
  have zero: "numTickets s = 0"
    and all: "list_all (\<lambda>t. numSoldByThisThread t = 0 \<and> \<not> past_check (pc t)) (sellers s)"
    and out: "list_all (\<lambda>l. \<not> is_sold_line l \<and> line_value l = 0) (printed s)"
    using inv by (simp_all add: zero_inv_def)
  have t: "numSoldByThisThread t = 0" "\<not> past_check (pc t)"
    using all i by (simp_all add: list_all_length t_def)
  have others: "\<And>t'. numSoldByThisThread t' = 0 \<Longrightarrow> \<not> past_check (pc t') \<Longrightarrow>
      list_all (\<lambda>t. numSoldByThisThread t = 0 \<and> \<not> past_check (pc t)) ((sellers s)[i := t'])"
    using all by (intro list_all_updateI) (simp_all add: list_all_length)
  have le: "rank t \<le> R"
    unfolding R_def t_def using i by (simp add: member_le_sum_list)
  have upd: "\<And>t'. sum_list (map rank ((sellers s)[i := t'])) = R + rank t' - rank t"
    unfolding R_def t_def using i by (simp add: sum_list_update map_update)
  have "zero_inv s' \<and> potential s' + 1 = 9 * nat (numTickets s) + R"
    using step i t zero out le others
    by (cases "pc t")
      (auto simp: seller_step_def t_def [symmetric] potential_def set_seller_def zero_inv_def
        upd split: if_splits)
  then show ?thesis by (simp add: potential_def R_def)
qed

lemma zero_inv_run:
  "zero_inv s \<Longrightarrow>
   zero_inv (run_sellers sched s) \<and>
   steps_taken sched s + potential (run_sellers sched s) = potential s"
proof (induction sched arbitrary: s)
  case Nil
  then show ?case by simp
next
  case (Cons i sched)
  show ?case
  proof (cases "seller_step i s")
    case None
    then show ?thesis using Cons by simp
  next
    case (Some s')
    have s': "zero_inv s'" "potential s' + 1 = potential s"
      using zero_inv_step [OF Cons.prems Some] by simp_all
    show ?thesis using Cons.IH [OF s'(1)] s'(2) Some by simp
  qed
qed

lemma zero_inv_init: "zero_inv (init_tickets 0 W)"
  by (simp add: zero_inv_def init_tickets_def init_seller_def list_all_iff)

lemma potential_init: "0 \<le> T \<Longrightarrow> potential (init_tickets T W) = 9 * nat T + 8 * W"
  by (simp add: potential_def init_tickets_def init_seller_def sum_list_replicate)

subsection \<open>The final state\<close>

lemma length_sellers_step: "seller_step i s = Some s' \<Longrightarrow> length (sellers s') = length (sellers s)"
  by (cases "pc (sellers s ! i)")
    (auto simp: seller_step_def set_seller_def Let_def split: if_splits)

lemma length_sellers_run: "length (sellers (run_sellers sched s)) = length (sellers s)"
  by (induction sched arbitrary: s) (auto split: option.splits simp: length_sellers_step)

lemma length_sellers_init: "length (sellers (init_tickets T W)) = W"
  by (simp add: init_tickets_def)

lemma in_flight_le_holders: "in_flight s \<le> holders s"
proof -
  have "length (filter (\<lambda>t. pc t = IncSold) xs) \<le> length (filter (\<lambda>t. holds_lock (pc t)) xs)"
    for xs :: "seller list"
    by (induction xs) auto
  then show ?thesis by (simp add: in_flight_def holders_def)
qed

lemma all_exited_sums:
  assumes "all_exited s"
  shows "in_flight s = 0" and "sum_list (map sold_if_exited (sellers s)) = total_sold s"
proof -
  have "\<forall>t \<in> set xs. pc t = Exited \<Longrightarrow>
      filter (\<lambda>t. pc t = IncSold) xs = [] \<and>
      sum_list (map sold_if_exited xs) = sum_list (map numSoldByThisThread xs)"
    for xs :: "seller list"
    by (induction xs) (auto simp: sold_if_exited_def)
  then show "in_flight s = 0" and "sum_list (map sold_if_exited (sellers s)) = total_sold s"
    using assms by (simp_all add: all_exited_def in_flight_def total_sold_def list_all_iff)
qed

lemma sellers_final:
  assumes inv: "tickets_inv T s" and ex: "all_exited s" and W: "0 < length (sellers s)"
  shows "numTickets s = 0 \<and> total_sold s = T \<and> sum_list (map reported (printed s)) = T"
proof -
  have "seller_ok s (sellers s ! 0)" "pc (sellers s ! 0) = Exited"
    using inv ex W by (simp_all add: tickets_inv_def all_exited_def list_all_length)
  then have zero: "numTickets s = 0" by (simp add: seller_ok_def)
  have "total_sold s + int (in_flight s) = T - numTickets s"
    and "sum_list (map reported (printed s)) = sum_list (map sold_if_exited (sellers s))"
    using inv by (simp_all add: tickets_inv_def)
  then show ?thesis using zero all_exited_sums [OF ex] by simp
qed

subsection \<open>The claims about the ticket counter\<close>



text \<open>
  Claim C4. From a total \<open>T \<ge> 0\<close>, along every schedule: \<open>numTickets\<close> never goes up
  (a longer run never has more tickets than its prefix), is never negative, and the
  decrements done so far, the sum of the sellers' counts plus the one seller that has
  stored the counter and not yet counted, equal \<open>T - numTickets\<close>; whenever the lock is
  free, the sum of the sellers' counts alone equals \<open>T - numTickets\<close>.
\<close>

theorem numTickets_decreasing_nonnegative_accounted:
  assumes "0 \<le> T"
  shows "numTickets (run_sellers (sched @ sched') (init_tickets T W)) \<le>
      numTickets (run_sellers sched (init_tickets T W)) \<and>
    0 \<le> numTickets (run_sellers sched (init_tickets T W)) \<and>
    total_sold (run_sellers sched (init_tickets T W)) +
      int (in_flight (run_sellers sched (init_tickets T W))) =
      T - numTickets (run_sellers sched (init_tickets T W)) \<and>
    (ticketsLock (run_sellers sched (init_tickets T W)) = 1 \<longrightarrow>
      total_sold (run_sellers sched (init_tickets T W)) =
      T - numTickets (run_sellers sched (init_tickets T W)))"
proof -
  define s where "s = run_sellers sched (init_tickets T W)"
  have inv: "tickets_inv T s"
    unfolding s_def using assms by (intro tickets_inv_run tickets_inv_init)
  have 1: "numTickets (run_sellers sched' s) \<le> numTickets s"
    using inv by (rule numTickets_run)
  have 2: "0 \<le> numTickets s" and 3: "total_sold s + int (in_flight s) = T - numTickets s"
    and lock: "ticketsLock s + holders s = 1"
    using inv by (simp_all add: tickets_inv_def)
  have 4: "ticketsLock s = 1 \<longrightarrow> total_sold s = T - numTickets s"
    using 3 lock in_flight_le_holders [of s] by auto
  show ?thesis
    using 1 2 3 4 unfolding s_def run_sellers_append by blast
qed

theorem numTickets_decreasing_nonnegative_accounted_witness:
  "(0 :: int) \<le> 35 \<and>
   ticketsLock (run_sellers (concat (replicate 3 one_iteration_each)) (init_tickets 35 4)) = 1 \<and>
   numTickets (run_sellers (concat (replicate 3 one_iteration_each)) (init_tickets 35 4)) = 23 \<and>
   total_sold (run_sellers (concat (replicate 3 one_iteration_each)) (init_tickets 35 4)) = 12 \<and>
   numTickets (run_sellers (concat (replicate 3 one_iteration_each) @ [0, 0, 0, 0, 0, 0])
     (init_tickets 35 4)) = 22"
proof -
  have T: "(0 :: int) \<le> 35" by simp
  have lock: "ticketsLock
      (run_sellers (concat (replicate 3 one_iteration_each)) (init_tickets 35 4)) = 1"
    by code_simp
  have n: "numTickets
      (run_sellers (concat (replicate 3 one_iteration_each)) (init_tickets 35 4)) = 23"
    by code_simp
  have m: "numTickets (run_sellers (concat (replicate 3 one_iteration_each) @ [0, 0, 0, 0, 0, 0])
     (init_tickets 35 4)) = 22"
    by code_simp
  show ?thesis
    using T lock n m
      numTickets_decreasing_nonnegative_accounted [OF T,
        of "concat (replicate 3 one_iteration_each)" "[0, 0, 0, 0, 0, 0]" 4]
    by simp
qed

text \<open>
  Claim C5. The program as configured, 35 tickets and 4 sellers, under every schedule:
  once all sellers have exited, \<open>numTickets\<close> is 0, the sellers' counts sum to 35 and so do
  the counts they print in their last lines; no seller's count is ever negative; as long
  as a seller has not exited some seller can move; and no schedule executes more than
  \<open>9 * 35 + 8 * 4\<close> statements, so that every run ends, with all sellers exited.
\<close>

theorem all_tickets_sold_exactly_once:
  "(all_exited (run_sellers sched main_tickets) \<longrightarrow>
      numTickets (run_sellers sched main_tickets) = 0 \<and>
      total_sold (run_sellers sched main_tickets) = 35 \<and>
      sum_list (map reported (printed (run_sellers sched main_tickets))) = 35) \<and>
   list_all (\<lambda>t. 0 \<le> numSoldByThisThread t) (sellers (run_sellers sched main_tickets)) \<and>
   (\<not> all_exited (run_sellers sched main_tickets) \<longrightarrow>
      (\<exists>i < NUM_SELLERS. seller_step i (run_sellers sched main_tickets) \<noteq> None)) \<and>
   steps_taken sched main_tickets \<le> 9 * 35 + 8 * 4"
proof -
  define s where "s = run_sellers sched main_tickets"
  have inv0: "tickets_inv 35 main_tickets"
    unfolding main_tickets_def NUM_TICKETS_def by (rule tickets_inv_init) simp
  then have inv: "tickets_inv 35 s" unfolding s_def by (rule tickets_inv_run)
  have len: "length (sellers s) = NUM_SELLERS"
    by (simp add: s_def length_sellers_run main_tickets_def length_sellers_init)
  have 1: "all_exited s \<longrightarrow>
      numTickets s = 0 \<and> total_sold s = 35 \<and> sum_list (map reported (printed s)) = 35"
    using sellers_final [OF inv] len by (simp add: NUM_SELLERS_def)
  have 2: "list_all (\<lambda>t. 0 \<le> numSoldByThisThread t) (sellers s)"
    using inv by (simp add: tickets_inv_def seller_ok_def list_all_iff)
  have 3: "\<not> all_exited s \<longrightarrow> (\<exists>i < NUM_SELLERS. seller_step i s \<noteq> None)"
    using progress [OF inv] len by simp
  have "steps_taken sched main_tickets + potential s \<le> potential main_tickets"
    unfolding s_def using inv0 by (rule steps_bounded)
  moreover have "potential main_tickets = 9 * 35 + 8 * 4"
    by (simp add: main_tickets_def NUM_TICKETS_def NUM_SELLERS_def potential_init)
  ultimately have 4: "steps_taken sched main_tickets \<le> 9 * 35 + 8 * 4" by simp
  show ?thesis using 1 2 3 4 unfolding s_def by blast
qed

theorem all_tickets_sold_exactly_once_witness:
  "all_exited (run_sellers (concat (replicate 10 one_iteration_each)) main_tickets) \<and>
   numTickets (run_sellers (concat (replicate 10 one_iteration_each)) main_tickets) = 0 \<and>
   total_sold (run_sellers (concat (replicate 10 one_iteration_each)) main_tickets) = 35 \<and>
   map numSoldByThisThread
     (sellers (run_sellers (concat (replicate 10 one_iteration_each)) main_tickets)) = [9, 9, 9, 8]"
proof -
  have ex: "all_exited (run_sellers (concat (replicate 10 one_iteration_each)) main_tickets)"
    by code_simp
  have sold: "map numSoldByThisThread
     (sellers (run_sellers (concat (replicate 10 one_iteration_each)) main_tickets)) = [9, 9, 9, 8]"
    by code_simp
  show ?thesis
    using ex sold all_tickets_sold_exactly_once [of "concat (replicate 10 one_iteration_each)"]
    by simp
qed

text \<open>
  Claim C7. Started with no ticket, whatever the number of sellers and the schedule: the
  counter stays 0, no seller ever counts a ticket or enters the \<open>else\<close> branch behind the
  check, no line \<open>sold one\<close> is printed and every count printed is 0. Each statement
  executed lowers the measure by exactly one from \<open>8 * W\<close>: a seller executes the eight
  statements of a single pass (loop test, delay, wait, check, \<open>done = true\<close>, post, loop
  test, last line) and exits, and as long as a seller has not exited some seller can move.
\<close>

theorem no_tickets_no_sale:
  "numTickets (run_sellers sched (init_tickets 0 W)) = 0 \<and>
   list_all (\<lambda>t. numSoldByThisThread t = 0 \<and> \<not> past_check (pc t))
     (sellers (run_sellers sched (init_tickets 0 W))) \<and>
   list_all (\<lambda>l. \<not> is_sold_line l \<and> line_value l = 0)
     (printed (run_sellers sched (init_tickets 0 W))) \<and>
   steps_taken sched (init_tickets 0 W) + potential (run_sellers sched (init_tickets 0 W)) =
     8 * W \<and>
   (all_exited (run_sellers sched (init_tickets 0 W)) \<longrightarrow>
      steps_taken sched (init_tickets 0 W) = 8 * W) \<and>
   (\<not> all_exited (run_sellers sched (init_tickets 0 W)) \<longrightarrow>
      (\<exists>i < W. seller_step i (run_sellers sched (init_tickets 0 W)) \<noteq> None))"
proof -
  define s where "s = run_sellers sched (init_tickets 0 W)"
  have z: "zero_inv s"
    and steps: "steps_taken sched (init_tickets 0 W) + potential s = potential (init_tickets 0 W)"
    unfolding s_def using zero_inv_run [OF zero_inv_init] by simp_all
  have inv: "tickets_inv 0 s"
    unfolding s_def by (intro tickets_inv_run tickets_inv_init) simp
  have len: "length (sellers s) = W"
    by (simp add: s_def length_sellers_run length_sellers_init)
  have pot: "potential (init_tickets 0 W) = 8 * W"
    using potential_init [of 0 W] by simp
  have fin: "all_exited s \<longrightarrow> potential s = 0"
  proof
    assume "all_exited s"
    then have "\<forall>t \<in> set (sellers s). rank t = 0"
      by (auto simp: all_exited_def list_all_iff)
    then have "sum_list (map rank (sellers s)) = 0" by (simp add: sum_list_eq_0_iff)
    then show "potential s = 0" using z by (simp add: potential_def zero_inv_def)
  qed
  have live: "\<not> all_exited s \<longrightarrow> (\<exists>i < W. seller_step i s \<noteq> None)"
    using progress [OF inv] len by simp
  show ?thesis
    using z steps pot fin live unfolding s_def zero_inv_def by auto
qed

theorem no_tickets_no_sale_witness:
  "all_exited (run_sellers (concat (replicate 17 [0, 1, 2, 3])) (init_tickets 0 4)) \<and>
   steps_taken (concat (replicate 17 [0, 1, 2, 3])) (init_tickets 0 4) = 32 \<and>
   printed (run_sellers (concat (replicate 17 [0, 1, 2, 3])) (init_tickets 0 4)) =
     [NoticedAllSold 0 0, NoticedAllSold 1 0, NoticedAllSold 2 0, NoticedAllSold 3 0]"
proof -
  have ex: "all_exited (run_sellers (concat (replicate 17 [0, 1, 2, 3])) (init_tickets 0 4))"
    by code_simp
  have out: "printed (run_sellers (concat (replicate 17 [0, 1, 2, 3])) (init_tickets 0 4)) =
     [NoticedAllSold 0 0, NoticedAllSold 1 0, NoticedAllSold 2 0, NoticedAllSold 3 0]"
    by code_simp
  show ?thesis
    using ex out no_tickets_no_sale [of "concat (replicate 17 [0, 1, 2, 3])" 4]
    by simp
qed

text \<open>
  Claim C8. From a total \<open>T \<ge> 0\<close>, under every interleaving of the sellers' statements:
  the semaphore and the number of sellers between \<open>sem_wait\<close> and \<open>sem_post\<close> add up to 1,
  so no two sellers are there together; a seller that has passed the check and is about
  to load or to store the counter still finds it positive, and the value it loaded is
  still the counter's value when it stores; the counter is never negative, and neither
  is any value printed.
\<close>

theorem check_and_decrement_is_atomic:
  assumes "0 \<le> T"
  shows "ticketsLock (run_sellers sched (init_tickets T W)) +
      holders (run_sellers sched (init_tickets T W)) = 1 \<and>
    (\<forall>i < W. \<forall>j < W. i \<noteq> j \<longrightarrow>
       \<not> (holds_lock (pc (sellers (run_sellers sched (init_tickets T W)) ! i)) \<and>
          holds_lock (pc (sellers (run_sellers sched (init_tickets T W)) ! j)))) \<and>
    list_all
      (\<lambda>t. (pc t = DecLoad \<longrightarrow> 0 < numTickets (run_sellers sched (init_tickets T W))) \<and>
           (pc t = DecStore \<longrightarrow>
              reg t = numTickets (run_sellers sched (init_tickets T W)) \<and>
              0 < numTickets (run_sellers sched (init_tickets T W))))
      (sellers (run_sellers sched (init_tickets T W))) \<and>
    0 \<le> numTickets (run_sellers sched (init_tickets T W)) \<and>
    list_all (\<lambda>l. 0 \<le> line_value l) (printed (run_sellers sched (init_tickets T W)))"
proof -
  define s where "s = run_sellers sched (init_tickets T W)"
  have inv: "tickets_inv T s"
    unfolding s_def using assms by (intro tickets_inv_run tickets_inv_init)
  have len: "length (sellers s) = W"
    by (simp add: s_def length_sellers_run length_sellers_init)
  have lock: "ticketsLock s + holders s = 1"
    and nonneg: "0 \<le> numTickets s"
    and ok: "list_all (seller_ok s) (sellers s)"
    and out: "list_all (\<lambda>l. 0 \<le> line_value l) (printed s)"
    using inv by (simp_all add: tickets_inv_def)
  have excl: "\<forall>i < W. \<forall>j < W. i \<noteq> j \<longrightarrow>
      \<not> (holds_lock (pc (sellers s ! i)) \<and> holds_lock (pc (sellers s ! j)))"
    using other_not_holder [OF lock] len by blast
  have dec: "list_all
      (\<lambda>t. (pc t = DecLoad \<longrightarrow> 0 < numTickets s) \<and>
           (pc t = DecStore \<longrightarrow> reg t = numTickets s \<and> 0 < numTickets s)) (sellers s)"
    using ok by (simp add: list_all_iff seller_ok_def)
  show ?thesis
    using lock excl dec nonneg out unfolding s_def by blast
qed

theorem check_and_decrement_is_atomic_witness:
  "(0 :: int) \<le> 35 \<and>
   pc (sellers (run_sellers two_sellers_alternating (init_tickets 35 2)) ! 0) = DecStore \<and>
   pc (sellers (run_sellers two_sellers_alternating (init_tickets 35 2)) ! 1) = SemWait \<and>
   ticketsLock (run_sellers two_sellers_alternating (init_tickets 35 2)) = 0 \<and>
   holders (run_sellers two_sellers_alternating (init_tickets 35 2)) = 1 \<and>
   numTickets (run_sellers two_sellers_alternating (init_tickets 35 2)) = 35"
proof -
  have T: "(0 :: int) \<le> 35" by simp
  have a: "pc (sellers (run_sellers two_sellers_alternating (init_tickets 35 2)) ! 0)
      = DecStore"
    "pc (sellers (run_sellers two_sellers_alternating (init_tickets 35 2)) ! 1) = SemWait"
    "ticketsLock (run_sellers two_sellers_alternating (init_tickets 35 2)) = 0"
    "numTickets (run_sellers two_sellers_alternating (init_tickets 35 2)) = 35"
    by code_simp+
  show ?thesis
    using T a check_and_decrement_is_atomic [OF T, of two_sellers_alternating 2]
    by simp
qed

section \<open>readerWriter.c: the proofs\<close>

subsection \<open>The invariant of the runs that stay inside the array\<close>

lemma smod_in_buffer: "in_buffer k \<Longrightarrow> in_buffer ((k + 1) smod NUM_TOTAL_BUFFERS)"
  by (auto simp: in_buffer_def NUM_TOTAL_BUFFERS_def smod_int_alt_def sgn_if)

lemma rw_inv_init: "in_buffer wp \<Longrightarrow> rw_inv (init_rw wp garbage)"
  by (simp add: rw_inv_def w_inv_def r_inv_def sem_inv_def init_rw_def NUM_TOTAL_BUFFERS_def
      in_buffer_def)

lemma reader_step_frame:
  assumes "reader_step m s = Next s'"
  shows "w_pc s' = w_pc s \<and> w_i s' = w_i s \<and> writePt s' = writePt s \<and>
    w_out s' = w_out s \<and> dataToWrite s' = dataToWrite s \<and> buffers s' = buffers s"
  using assms
  by (cases "r_pc s") (auto simp: reader_step_def split: if_splits option.splits)

lemma writer_step_frame:
  assumes "in_buffer (writePt s)" "writer_step rnd m s = Next s'"
  shows "r_pc s' = r_pc s \<and> r_i s' = r_i s \<and> readPt s' = readPt s \<and>
    r_out s' = r_out s \<and> dataToRead s' = dataToRead s"
  using assms
  by (cases "w_pc s") (auto simp: writer_step_def in_buffer_def split: if_splits)

lemma w_inv_writer:
  assumes "w_inv s" "writer_step rnd m s = Next s'"
  shows "w_inv s'"
  using assms smod_in_buffer [of "writePt s"]
  by (cases "w_pc s")
    (auto simp: w_inv_def writer_step_def DATA_LENGTH_def in_buffer_def split: if_splits)

lemma w_inv_reader:
  assumes "w_inv s" "reader_step m s = Next s'"
  shows "w_inv s'"
  using assms(1) reader_step_frame [OF assms(2)] by (simp add: w_inv_def)

lemma r_inv_reader:
  assumes "r_inv s" "reader_step m s = Next s'"
  shows "r_inv s'"
  using assms smod_in_buffer [of "readPt s"]
  by (cases "r_pc s")
    (auto simp: r_inv_def reader_step_def DATA_LENGTH_def in_buffer_def split: if_splits)

lemma r_inv_writer:
  assumes "r_inv s" "in_buffer (writePt s)" "writer_step rnd m s = Next s'"
  shows "r_inv s'"
  using assms(1) writer_step_frame [OF assms(2,3)] by (simp add: r_inv_def)

lemma sem_inv_writer:
  assumes "sem_inv s" "in_buffer (writePt s)" "writer_step rnd m s = Next s'"
  shows "sem_inv s'"
  using assms
  by (cases "w_pc s") (auto simp: sem_inv_def writer_step_def in_buffer_def split: if_splits)

lemma sem_inv_reader:
  assumes "sem_inv s" "reader_step m s = Next s'"
  shows "sem_inv s'"
  using assms
  by (cases "r_pc s") (auto simp: sem_inv_def reader_step_def split: if_splits option.splits)

lemma rw_inv_step:
  assumes inv: "rw_inv s" and step: "rw_step rnd m t s = Next s'"
  shows "rw_inv s'"
proof (cases t)
  case Writer
  then have w: "writer_step rnd m s = Next s'" using step by simp
  have "in_buffer (writePt s)" using inv by (simp add: rw_inv_def w_inv_def)
  then show ?thesis
    using inv w w_inv_writer r_inv_writer sem_inv_writer unfolding rw_inv_def by blast
next
  case Reader
  then have "reader_step m s = Next s'" using step by simp
  then show ?thesis
    using inv w_inv_reader r_inv_reader sem_inv_reader unfolding rw_inv_def by blast
qed

lemma rw_step_inside:
  assumes "rw_inv s"
  shows "rw_step rnd m t s = rw_step rnd m' t s" and "rw_step rnd m t s \<noteq> Fault e"
proof -
  have w: "in_buffer (writePt s)" and r: "in_buffer (readPt s)"
    using assms by (simp_all add: rw_inv_def w_inv_def r_inv_def)
  have "writer_step rnd m s = writer_step rnd m' s \<and> writer_step rnd m s \<noteq> Fault e"
    using w by (cases "w_pc s") (simp_all add: writer_step_def in_buffer_def)
  moreover have "reader_step m s = reader_step m' s \<and> reader_step m s \<noteq> Fault e"
    using r by (cases "r_pc s") (simp_all add: reader_step_def in_buffer_def)
  ultimately show "rw_step rnd m t s = rw_step rnd m' t s" and "rw_step rnd m t s \<noteq> Fault e"
    by (cases t; simp)+
qed

lemma rw_inv_run:
  "rw_inv s \<Longrightarrow> \<exists>s'. run_rw rnd m sched s = Inr s' \<and> rw_inv s'"
proof (induction sched arbitrary: s)
  case Nil
  then show ?case by simp
next
  case (Cons t sched)
  show ?case
  proof (cases "rw_step rnd m t s")
    case Blocked
    then show ?thesis using Cons by simp
  next
    case (Fault e)
    then show ?thesis using rw_step_inside(2) [OF Cons.prems] by simp
  next
    case (Next s1)
    then have "rw_inv s1" using Cons.prems by (simp add: rw_inv_step)
    then show ?thesis using Cons.IH Next by simp
  qed
qed

lemma run_rw_inside:
  "rw_inv s \<Longrightarrow> run_rw rnd m sched s = run_rw rnd m' sched s"
proof (induction sched arbitrary: s)
  case Nil
  then show ?case by simp
next
  case (Cons t sched)
  have eq: "rw_step rnd m t s = rw_step rnd m' t s" using Cons.prems by (rule rw_step_inside)
  show ?case
  proof (cases "rw_step rnd m t s")
    case Blocked
    then show ?thesis using Cons eq by simp
  next
    case (Fault e)
    then show ?thesis using eq by simp
  next
    case (Next s1)
    then have "rw_inv s1" using Cons.prems by (simp add: rw_inv_step)
    then show ?thesis using Cons.IH Next eq by simp
  qed
qed

subsection \<open>Termination and progress\<close>

lemma rw_potential_step:
  assumes "rw_inv s" "rw_step rnd m t s = Next s'"
  shows "rw_potential s' + 1 = rw_potential s"
proof (cases t)
  case Writer
  then have w: "writer_step rnd m s = Next s'" using assms by simp
  have inb: "in_buffer (writePt s)" using assms(1) by (simp add: rw_inv_def w_inv_def)
  have "r_rank s' = r_rank s" using writer_step_frame [OF inb w] by (simp add: r_rank_def)
  moreover have "w_rank s' + 1 = w_rank s"
    using w inb
    by (cases "w_pc s")
      (auto simp: writer_step_def w_rank_def DATA_LENGTH_def in_buffer_def nat_diff_distrib
        split: if_splits)
  ultimately show ?thesis by (simp add: rw_potential_def)
next
  case Reader
  then have r: "reader_step m s = Next s'" using assms by simp
  have "w_rank s' = w_rank s" using reader_step_frame [OF r] by (simp add: w_rank_def)
  moreover have "r_rank s' + 1 = r_rank s"
    using r
    by (cases "r_pc s")
      (auto simp: reader_step_def r_rank_def DATA_LENGTH_def nat_diff_distrib
        split: if_splits option.splits)
  ultimately show ?thesis by (simp add: rw_potential_def)
qed

lemma rw_steps_exact:
  "rw_inv s \<Longrightarrow> run_rw rnd m sched s = Inr s' \<Longrightarrow>
   rw_steps_taken rnd m sched s + rw_potential s' = rw_potential s"
proof (induction sched arbitrary: s)
  case Nil
  then show ?case by simp
next
  case (Cons t sched)
  show ?case
  proof (cases "rw_step rnd m t s")
    case Blocked
    then show ?thesis using Cons by simp
  next
    case (Fault e)
    then show ?thesis using Cons by simp
  next
    case (Next s1)
    have "rw_inv s1" using Cons.prems(1) Next by (rule rw_inv_step)
    then show ?thesis
      using Cons Next rw_potential_step [OF Cons.prems(1) Next] by simp
  qed
qed

lemma rw_progress:
  assumes "rw_inv s" "\<not> both_exited s"
  shows "writer_step rnd m s \<noteq> Blocked \<or> reader_step m s \<noteq> Blocked"
proof (rule ccontr)
  assume "\<not> ?thesis"
  then have w: "writer_step rnd m s = Blocked" and r: "reader_step m s = Blocked" by simp_all
  have wpc: "w_pc s = W_Exited \<or> w_pc s = W_WaitEmpty \<and> emptyBuffers s = 0"
    using w by (cases "w_pc s") (auto simp: writer_step_def split: if_splits option.splits)
  have rpc: "r_pc s = R_Exited \<or> r_pc s = R_WaitFull \<and> fullBuffers s = 0"
    using r by (cases "r_pc s") (auto simp: reader_step_def split: if_splits option.splits)
  show False
    using assms wpc rpc
    by (auto simp: rw_inv_def w_inv_def r_inv_def sem_inv_def both_exited_def)
qed

subsection \<open>First in, first out, when the write cursor starts at 0\<close>

text \<open>
  \<open>Writer\<close> never sets \<open>writePt\<close> before it uses it. The lemmas of this part are about the
  runs in which the value it finds there is 0, the value \<open>Reader\<close> gives to \<open>readPt\<close>:
  there no access leaves the array, whatever the machine, and the reader gets the items
  the writer has put, in order.
\<close>

lemma ring_log_Suc:
  "ring_log rnd (Suc n) = ring_log rnd n @ [(int n mod 5, PrepareData (rnd n))]"
  by (simp add: ring_log_def NUM_TOTAL_BUFFERS_def)

lemma smod_next: "0 \<le> k \<Longrightarrow> (k mod 5 + 1) smod NUM_TOTAL_BUFFERS = (k + 1) mod 5"
  by (simp add: NUM_TOTAL_BUFFERS_def smod_int_alt_def sgn_if mod_add_left_eq)

lemma w_fifo_writer:
  assumes "w_fifo rnd s" "w_inv s" "writer_step rnd m s = Next s'"
  shows "w_fifo rnd s'"
proof -
  have len: "int (length (w_out s)) = w_i s + w_past_print (w_pc s)" and i0: "0 \<le> w_i s"
    and inb: "0 \<le> writePt s" "writePt s < NUM_TOTAL_BUFFERS"
    using assms(2) by (simp_all add: w_inv_def in_buffer_def)
  have n: "w_pc s = W_Print \<Longrightarrow> nat (w_i s) = length (w_out s) \<and> w_i s = int (length (w_out s))"
    using len by simp
  show ?thesis
    using assms(1,3) smod_next [OF i0] n i0 inb
    by (cases "w_pc s")
      (auto simp: w_fifo_def writer_step_def ring_log_Suc split: if_splits)
qed

lemma w_fifo_reader:
  assumes "w_fifo rnd s" "reader_step m s = Next s'"
  shows "w_fifo rnd s'"
  using assms(1) reader_step_frame [OF assms(2)] by (simp add: w_fifo_def)

lemma w_posted_le_stored: "w_past_post p \<le> w_past_store p"
  by (cases p) simp_all

lemma r_fifo_reader:
  assumes rf: "r_fifo rnd s" and ri: "r_inv s" and bf: "buf_fifo rnd s" and sem: "sem_inv s"
    and step: "reader_step m s = Next s'"
  shows "r_fifo rnd s'"
proof -
  have len: "int (length (r_out s)) = r_i s + r_past_print (r_pc s)" and i0: "0 \<le> r_i s"
    using ri by (simp_all add: r_inv_def)
  have n: "r_pc s = R_Print \<Longrightarrow>
      nat (r_i s) = length (r_out s) \<and> r_i s = int (length (r_out s))"
    using len by simp
  have load: "buffers s ! nat (r_i s mod 5) = PrepareData (rnd (nat (r_i s)))"
    if "r_pc s = R_Load"
  proof -
    have "int (fullBuffers s) + (r_i s + 1) = w_i s + w_past_post (w_pc s)"
      using sem that by (simp add: sem_inv_def)
    then have "r_i s < w_i s + w_past_store (w_pc s)"
      using w_posted_le_stored [of "w_pc s"] by linarith
    then show ?thesis
      using bf that by (simp add: buf_fifo_def)
  qed
  have inb: "in_buffer (readPt s)" using ri by (simp add: r_inv_def)
  show ?thesis
    using rf step smod_next [OF i0] n i0 load inb
    by (cases "r_pc s")
      (auto simp: r_fifo_def reader_step_def ring_log_Suc in_buffer_def split: if_splits)
qed

lemma r_fifo_writer:
  assumes "r_fifo rnd s" "in_buffer (writePt s)" "writer_step rnd m s = Next s'"
  shows "r_fifo rnd s'"
  using assms(1) writer_step_frame [OF assms(2,3)] by (simp add: r_fifo_def)

lemma buf_fifo_narrow:
  assumes "buf_fifo rnd s" "buffers s' = buffers s"
    and "r_i s + r_past_post (r_pc s) \<le> r_i s' + r_past_post (r_pc s')"
    and "w_i s' + w_past_store (w_pc s') \<le> w_i s + w_past_store (w_pc s)"
  shows "buf_fifo rnd s'"
  using assms by (simp add: buf_fifo_def)

lemma buf_fifo_reader:
  assumes "buf_fifo rnd s" "reader_step m s = Next s'"
  shows "buf_fifo rnd s'"
proof (rule buf_fifo_narrow [OF assms(1)])
  show "buffers s' = buffers s"
    and "w_i s' + w_past_store (w_pc s') \<le> w_i s + w_past_store (w_pc s)"
    using reader_step_frame [OF assms(2)] by simp_all
  show "r_i s + r_past_post (r_pc s) \<le> r_i s' + r_past_post (r_pc s')"
    using assms(2)
    by (cases "r_pc s") (auto simp: reader_step_def split: if_splits option.splits)
qed

lemma ring_slots_differ:
  fixes j k :: int
  assumes "k < j" "j < k + 5"
  shows "j mod 5 \<noteq> k mod 5"
  using assms by presburger

lemma buf_fifo_writer:
  assumes bf: "buf_fifo rnd s" and wf: "w_fifo rnd s" and wi: "w_inv s" and ri: "r_inv s"
    and sem: "sem_inv s" and step: "writer_step rnd m s = Next s'"
  shows "buf_fifo rnd s'"
proof (cases "w_pc s = W_Store")
  case False
  have inb: "in_buffer (writePt s)" using wi by (simp add: w_inv_def)
  show ?thesis
  proof (rule buf_fifo_narrow [OF bf])
    show "r_i s + r_past_post (r_pc s) \<le> r_i s' + r_past_post (r_pc s')"
      using writer_step_frame [OF inb step] by simp
    show "buffers s' = buffers s"
      and "w_i s' + w_past_store (w_pc s') \<le> w_i s + w_past_store (w_pc s)"
      using step False
      by (cases "w_pc s"; auto simp: writer_step_def split: if_splits)+
  qed
next
  case True
  have i0: "0 \<le> w_i s" and r0: "0 \<le> r_i s" "0 \<le> r_past_post (r_pc s)"
    using wi ri by (cases "r_pc s"; simp add: w_inv_def r_inv_def)+
  have wp: "writePt s = w_i s mod 5"
    and d: "dataToWrite s = PrepareData (rnd (nat (w_i s)))"
    using wf True by (simp_all add: w_fifo_def)
  have len: "length (buffers s) = 5"
    and room: "w_i s < r_i s + r_past_post (r_pc s) + 5"
    using sem True by (simp_all add: sem_inv_def)
  have s': "s' = s\<lparr>buffers := (buffers s)[nat (w_i s mod 5) := PrepareData (rnd (nat (w_i s)))],
      w_pc := W_Print\<rparr>"
    using step True wp d
    by (simp add: writer_step_def NUM_TOTAL_BUFFERS_def split: if_splits)
  show ?thesis
    unfolding buf_fifo_def
  proof (intro allI impI)
    fix k
    assume k: "r_i s' + r_past_post (r_pc s') \<le> k \<and> k < w_i s' + w_past_store (w_pc s')"
    then have k': "r_i s + r_past_post (r_pc s) \<le> k" "k \<le> w_i s"
      by (simp_all add: s')
    have k0: "0 \<le> k" using k' r0 by linarith
    show "buffers s' ! nat (k mod 5) = PrepareData (rnd (nat k))"
    proof (cases "k = w_i s")
      case True
      then show ?thesis using len by (simp add: s')
    next
      case False
      then have lt: "k < w_i s" using k' by simp
      then have "w_i s mod 5 \<noteq> k mod 5"
        using room k' by (intro ring_slots_differ) linarith+
      then have "nat (w_i s mod 5) \<noteq> nat (k mod 5)"
        by (simp add: nat_eq_iff)
      moreover have "buffers s ! nat (k mod 5) = PrepareData (rnd (nat k))"
        using bf k' lt True by (simp add: buf_fifo_def)
      ultimately show ?thesis by (simp add: s')
    qed
  qed
qed

lemma fifo_inv_init: "fifo_inv rnd (init_rw 0 garbage)"
  by (auto simp: fifo_inv_def w_fifo_def r_fifo_def buf_fifo_def init_rw_def ring_log_def)

lemma fifo_inv_step:
  assumes fifo: "fifo_inv rnd s" and inv: "rw_inv s" and step: "rw_step rnd m t s = Next s'"
  shows "fifo_inv rnd s'"
proof -
  have wf: "w_fifo rnd s" and rf: "r_fifo rnd s" and bf: "buf_fifo rnd s"
    using fifo by (simp_all add: fifo_inv_def)
  have wi: "w_inv s" and ri: "r_inv s" and sem: "sem_inv s"
    using inv by (simp_all add: rw_inv_def)
  have inb: "in_buffer (writePt s)" using wi by (simp add: w_inv_def)
  show ?thesis
  proof (cases t)
    case Writer
    then have w: "writer_step rnd m s = Next s'" using step by simp
    show ?thesis
      unfolding fifo_inv_def
      using w_fifo_writer [OF wf wi w] r_fifo_writer [OF rf inb w]
        buf_fifo_writer [OF bf wf wi ri sem w]
      by simp
  next
    case Reader
    then have r: "reader_step m s = Next s'" using step by simp
    show ?thesis
      unfolding fifo_inv_def
      using w_fifo_reader [OF wf r] r_fifo_reader [OF rf ri bf sem r] buf_fifo_reader [OF bf r]
      by simp
  qed
qed

lemma fifo_inv_run:
  "fifo_inv rnd s \<Longrightarrow> rw_inv s \<Longrightarrow> run_rw rnd m sched s = Inr s' \<Longrightarrow> fifo_inv rnd s'"
proof (induction sched arbitrary: s)
  case Nil
  then show ?case by simp
next
  case (Cons t sched)
  show ?case
  proof (cases "rw_step rnd m t s")
    case Blocked
    then show ?thesis using Cons by simp
  next
    case (Fault e)
    then show ?thesis using Cons by simp
  next
    case (Next s1)
    have "fifo_inv rnd s1" using Cons.prems(1,2) Next by (rule fifo_inv_step)
    moreover have "rw_inv s1" using Cons.prems(2) Next by (rule rw_inv_step)
    ultimately show ?thesis using Cons Next by simp
  qed
qed

lemma take_ring_log: "m \<le> n \<Longrightarrow> take m (ring_log rnd n) = ring_log rnd m"
  by (simp add: ring_log_def take_map)

text \<open>
  In such a run the lines of the reader are at every moment a prefix of the lines of the
  writer, slot by slot and character by character, and at the end both have the 20 items.
\<close>

lemma fifo_if_write_cursor_starts_at_0:
  "case run_rw rnd m sched (init_rw 0 garbage) of
     Inl e \<Rightarrow> False
   | Inr s \<Rightarrow>
       w_out s = ring_log rnd (length (w_out s)) \<and>
       r_out s = take (length (r_out s)) (w_out s) \<and>
       length (r_out s) \<le> length (w_out s) \<and>
       (both_exited s \<longrightarrow> r_out s = ring_log rnd 20 \<and> w_out s = ring_log rnd 20)"
proof -
  have init: "rw_inv (init_rw 0 garbage)"
    by (rule rw_inv_init) (simp add: in_buffer_def NUM_TOTAL_BUFFERS_def)
  obtain s where run: "run_rw rnd m sched (init_rw 0 garbage) = Inr s" and inv: "rw_inv s"
    using rw_inv_run [OF init] by blast
  have fifo: "fifo_inv rnd s" using fifo_inv_run [OF fifo_inv_init init run] .
  have w: "w_out s = ring_log rnd (length (w_out s))"
    and r: "r_out s = ring_log rnd (length (r_out s))"
    using fifo by (simp_all add: fifo_inv_def w_fifo_def r_fifo_def)
  have wl: "int (length (w_out s)) = w_i s + w_past_print (w_pc s)"
    and rl: "int (length (r_out s)) = r_i s + r_past_print (r_pc s)"
    and f: "int (fullBuffers s) + (r_i s + r_past_wait (r_pc s)) = w_i s + w_past_post (w_pc s)"
    and ex: "w_pc s = W_Exited \<longrightarrow> w_i s = 20" "r_pc s = R_Exited \<longrightarrow> r_i s = 20"
    using inv by (simp_all add: rw_inv_def w_inv_def r_inv_def sem_inv_def)
  have "r_past_print (r_pc s) \<le> r_past_wait (r_pc s)" by (cases "r_pc s") simp_all
  moreover have "w_past_post (w_pc s) \<le> w_past_print (w_pc s)" by (cases "w_pc s") simp_all
  ultimately have le: "length (r_out s) \<le> length (w_out s)"
    using wl rl f by linarith
  have pre: "r_out s = take (length (r_out s)) (w_out s)"
    using w r take_ring_log [OF le, of rnd] by simp
  have fin: "both_exited s \<longrightarrow> length (r_out s) = 20 \<and> length (w_out s) = 20"
    using wl rl ex by (auto simp: both_exited_def)
  show ?thesis
    using run w r pre le fin by auto
qed

subsection \<open>When the write cursor starts inside the array\<close>

text \<open>
  When \<open>writePt\<close> starts as an index of the array, whichever: no access leaves the array
  and the process does not die; the permits add up to the capacity in every state; both
  cursors stay indices of the array.
\<close>

lemma permits_add_up_if_write_cursor_starts_inside:
  assumes "in_buffer wp"
  shows "case run_rw rnd m sched (init_rw wp garbage) of
      Inl e \<Rightarrow> False
    | Inr s \<Rightarrow>
        emptyBuffers s + fullBuffers s + (if w_holds s then 1 else 0) +
          (if r_holds s then 1 else 0) = 5 \<and>
        (quiescent s \<longrightarrow> emptyBuffers s + fullBuffers s = 5) \<and>
        in_buffer (writePt s) \<and> in_buffer (readPt s)"
proof -
  obtain s where run: "run_rw rnd m sched (init_rw wp garbage) = Inr s" and inv: "rw_inv s"
    using rw_inv_run [OF rw_inv_init [OF assms]] by blast
  have e: "int (emptyBuffers s) + (w_i s + w_past_wait (w_pc s)) =
        5 + (r_i s + r_past_post (r_pc s))"
    and f: "int (fullBuffers s) + (r_i s + r_past_wait (r_pc s)) =
        w_i s + w_past_post (w_pc s)"
    and c: "in_buffer (writePt s)" "in_buffer (readPt s)"
    using inv by (simp_all add: rw_inv_def sem_inv_def w_inv_def r_inv_def)
  have w: "w_past_wait (w_pc s) - w_past_post (w_pc s) = (if w_holds s then 1 else 0)"
    by (cases "w_pc s") (simp_all add: w_holds_def)
  have r: "r_past_wait (r_pc s) - r_past_post (r_pc s) = (if r_holds s then 1 else 0)"
    by (cases "r_pc s") (simp_all add: r_holds_def)
  have "int (emptyBuffers s) + int (fullBuffers s) + (if w_holds s then 1 else 0) +
      (if r_holds s then 1 else 0) = 5"
    using e f w r by linarith
  then have "emptyBuffers s + fullBuffers s + (if w_holds s then 1 else 0) +
          (if r_holds s then 1 else 0) = 5 \<and>
        (quiescent s \<longrightarrow> emptyBuffers s + fullBuffers s = 5)"
    by (auto simp: quiescent_def split: if_splits)
  then show ?thesis using run c by simp
qed

text \<open>
  And then each thread does its 20 iterations: never more in any state, exactly 20 once
  it has exited, and every run ends after 161 statements of each thread, both exited.
\<close>

lemma twenty_puts_twenty_takes_if_write_cursor_starts_inside:
  assumes "in_buffer wp"
  shows "case run_rw rnd m sched (init_rw wp garbage) of
     Inl e \<Rightarrow> False
   | Inr s \<Rightarrow>
       w_i s \<le> DATA_LENGTH \<and> r_i s \<le> DATA_LENGTH \<and>
       length (w_out s) \<le> 20 \<and> length (r_out s) \<le> 20 \<and>
       (w_pc s = W_Exited \<longrightarrow> w_i s = DATA_LENGTH \<and> length (w_out s) = 20) \<and>
       (r_pc s = R_Exited \<longrightarrow> r_i s = DATA_LENGTH \<and> length (r_out s) = 20) \<and>
       (\<not> both_exited s \<longrightarrow>
          (\<exists>s'. writer_step rnd m s = Next s') \<or> (\<exists>s'. reader_step m s = Next s')) \<and>
       rw_steps_taken rnd m sched (init_rw wp garbage) + rw_potential s = 322"
proof -
  have init: "rw_inv (init_rw wp garbage)" using assms by (rule rw_inv_init)
  obtain s where run: "run_rw rnd m sched (init_rw wp garbage) = Inr s" and inv: "rw_inv s"
    using rw_inv_run [OF init] by blast
  then have w: "w_inv s" and r: "r_inv s" by (simp_all add: rw_inv_def)
  have wi: "0 \<le> w_i s" "w_i s \<le> 20" "w_pc s = W_Exited \<longrightarrow> w_i s = 20"
    and wl: "int (length (w_out s)) = w_i s + w_past_print (w_pc s)"
    and wb: "w_pc s \<noteq> W_Test \<and> w_pc s \<noteq> W_Exited \<longrightarrow> w_i s < 20"
    using w by (simp_all add: w_inv_def)
  have ri: "0 \<le> r_i s" "r_i s \<le> 20" "r_pc s = R_Exited \<longrightarrow> r_i s = 20"
    and rl: "int (length (r_out s)) = r_i s + r_past_print (r_pc s)"
    and rb: "r_pc s \<noteq> R_Test \<and> r_pc s \<noteq> R_Exited \<longrightarrow> r_i s < 20"
    using r by (simp_all add: r_inv_def)
  have 1: "length (w_out s) \<le> 20 \<and> (w_pc s = W_Exited \<longrightarrow> length (w_out s) = 20)"
    using wi wl wb by (cases "w_pc s") simp_all
  have 2: "length (r_out s) \<le> 20 \<and> (r_pc s = R_Exited \<longrightarrow> length (r_out s) = 20)"
    using ri rl rb by (cases "r_pc s") simp_all
  have nf: "writer_step rnd m s \<noteq> Fault e" "reader_step m s \<noteq> Fault e" for e
    using rw_step_inside(2) [OF inv, of rnd m Writer e]
      rw_step_inside(2) [OF inv, of rnd m Reader e] by simp_all
  have 3: "\<not> both_exited s \<longrightarrow>
      (\<exists>s'. writer_step rnd m s = Next s') \<or> (\<exists>s'. reader_step m s = Next s')"
  proof
    assume "\<not> both_exited s"
    then have "writer_step rnd m s \<noteq> Blocked \<or> reader_step m s \<noteq> Blocked"
      using rw_progress [OF inv] by blast
    then show "(\<exists>s'. writer_step rnd m s = Next s') \<or> (\<exists>s'. reader_step m s = Next s')"
      using nf by (cases "writer_step rnd m s"; cases "reader_step m s") auto
  qed
  have "rw_potential (init_rw wp garbage) = 322"
    by (simp add: rw_potential_def w_rank_def r_rank_def init_rw_def DATA_LENGTH_def)
  then have 4: "rw_steps_taken rnd m sched (init_rw wp garbage) + rw_potential s = 322"
    using rw_steps_exact [OF init run] by simp
  show ?thesis
    using run wi ri 1 2 3 4 by (simp add: DATA_LENGTH_def)
qed

subsection \<open>When the write cursor starts outside the array\<close>

lemma before_first_store_init:
  "before_first_store wp (init_rw wp garbage)"
  by (simp add: before_first_store_def init_rw_def)

lemma before_first_store_step:
  assumes b: "before_first_store wp s" and out: "\<not> in_buffer wp"
  shows "case rw_step rnd dies t s of
      Blocked \<Rightarrow> True
    | Fault e \<Rightarrow> e = OutOfBounds wp
    | Next s' \<Rightarrow> before_first_store wp s'"
proof (cases t)
  case Writer
  have "case writer_step rnd dies s of
      Blocked \<Rightarrow> True
    | Fault e \<Rightarrow> e = OutOfBounds wp
    | Next s' \<Rightarrow> before_first_store wp s'"
    using b out
    by (cases "w_pc s")
      (auto simp: before_first_store_def writer_step_def dies_def in_buffer_def
        DATA_LENGTH_def)
  then show ?thesis using Writer by simp
next
  case Reader
  have "case reader_step dies s of
      Blocked \<Rightarrow> True
    | Fault e \<Rightarrow> e = OutOfBounds wp
    | Next s' \<Rightarrow> before_first_store wp s'"
    using b
    by (auto simp: before_first_store_def reader_step_def DATA_LENGTH_def)
  then show ?thesis using Reader by simp
qed

lemma before_first_store_run:
  assumes out: "\<not> in_buffer wp"
  shows "before_first_store wp s \<Longrightarrow>
    (case run_rw rnd dies sched s of
       Inl e \<Rightarrow> e = OutOfBounds wp
     | Inr s' \<Rightarrow> before_first_store wp s')"
proof (induction sched arbitrary: s)
  case Nil
  then show ?case by simp
next
  case (Cons t sched)
  show ?case
  proof (cases "rw_step rnd dies t s")
    case Blocked
    then show ?thesis using Cons.IH [OF Cons.prems] by simp
  next
    case (Fault e)
    then show ?thesis using before_first_store_step [OF Cons.prems out, of rnd t] by simp
  next
    case (Next s1)
    then have "before_first_store wp s1"
      using before_first_store_step [OF Cons.prems out, of rnd t] by simp
    then show ?thesis using Cons.IH Next by simp
  qed
qed

lemma first_store_dies:
  assumes "\<not> in_buffer wp"
  shows "run_rw rnd dies (replicate 4 Writer @ sched) (init_rw wp garbage) =
    Inl (OutOfBounds wp)"
  using assms
  by (auto simp: eval_nat_numeral init_rw_def writer_step_def dies_def in_buffer_def
      DATA_LENGTH_def NUM_TOTAL_BUFFERS_def)

text \<open>
  From a negative start the stores stay outside the array for more than one iteration,
  since the remainder of C keeps the sign: with -3 the first three lines of the writer
  name the slots -3, -2 and -1.
\<close>

lemma stores_stay_outside_from_negative_start:
  "case run_rw rnd_count lands_elsewhere (replicate 24 Writer) (init_rw (- 3) zeros) of
     Inl e \<Rightarrow> False
   | Inr s \<Rightarrow> map fst (w_out s) = [- 3, - 2, - 1] \<and> writePt s = 0"
  by code_simp

subsection \<open>The claims about the writer and the reader\<close>

lemma uint_PrepareData:
  assumes "0 \<le> result"
  shows "uint (PrepareData result) = 65 + result mod 25"
proof -
  have "result smod 25 = result mod 25"
    using assms by (simp add: smod_int_alt_def sgn_if)
  moreover have "0 \<le> result mod 25" "result mod 25 < 25" by simp_all
  ultimately show ?thesis
    unfolding PrepareData_def by (simp only: uint_word_of_int) (simp add: take_bit_int_eq_self)
qed

text \<open>
  Claim C1. What the two threads do when the value \<open>Writer\<close> finds in its uninitialised
  \<open>writePt\<close> is 1, on every machine: the first Put stores \<open>A\<close> in slot 1 and the first
  Take reads slot 0, which was never written, and returns the zero byte found there. Over
  the whole run of 20 Puts and 20 Takes, one after the other, the reader gets that byte
  and then the first 19 of the 20 characters written: the k-th Take does not return the
  value of the k-th Put. (Lemma \<open>fifo_if_write_cursor_starts_at_0\<close> is the order kept when
  the value found is 0.)
\<close>

theorem first_take_misses_first_put:
  "(case run_rw rnd_count m one_put_one_take (init_rw 1 zeros) of
      Inl e \<Rightarrow> False
    | Inr s \<Rightarrow> w_out s = [(1, of_char CHR ''A'')] \<and> r_out s = [(0, 0)]) \<and>
   (case run_rw rnd_count m (concat (replicate 21 one_put_one_take)) (init_rw 1 zeros) of
      Inl e \<Rightarrow> False
    | Inr s \<Rightarrow>
        both_exited s \<and>
        map snd (w_out s) = map (\<lambda>k. PrepareData (rnd_count k)) [0 ..< 20] \<and>
        map snd (r_out s) = 0 # map (\<lambda>k. PrepareData (rnd_count k)) [0 ..< 19])"
proof -
  have inv: "rw_inv (init_rw 1 zeros)"
    by (rule rw_inv_init) (simp add: in_buffer_def NUM_TOTAL_BUFFERS_def)
  have "(case run_rw rnd_count dies one_put_one_take (init_rw 1 zeros) of
      Inl e \<Rightarrow> False
    | Inr s \<Rightarrow> w_out s = [(1, of_char CHR ''A'')] \<and> r_out s = [(0, 0)]) \<and>
   (case run_rw rnd_count dies (concat (replicate 21 one_put_one_take)) (init_rw 1 zeros) of
      Inl e \<Rightarrow> False
    | Inr s \<Rightarrow>
        both_exited s \<and>
        map snd (w_out s) = map (\<lambda>k. PrepareData (rnd_count k)) [0 ..< 20] \<and>
        map snd (r_out s) = 0 # map (\<lambda>k. PrepareData (rnd_count k)) [0 ..< 19])"
    by code_simp
  then show ?thesis
    unfolding run_rw_inside [OF inv, of rnd_count m _ dies] .
qed

text \<open>
  Claim C3. What the permits are after the first Put when the value \<open>Writer\<close> finds in its
  uninitialised \<open>writePt\<close> is 7 and the byte at index 7 is the third byte of the count of
  \<open>fullBuffers\<close>: the store of \<open>A\<close> (65) adds \<open>65 * 65536\<close> to that count, the thread goes
  on, prints \<open>buffer[7] = A\<close> and posts, and in the quiescent state after the iteration
  \<open>emptyBuffers + fullBuffers\<close> is 4259845, not 5. (Lemma
  \<open>permits_add_up_if_write_cursor_starts_inside\<close> is the sum kept, in every state, when the
  value found is an index of the array.)
\<close>

theorem stray_store_breaks_permit_sum:
  "case run_rw rnd_count hits_fullBuffers one_put (init_rw 7 zeros) of
     Inl e \<Rightarrow> False
   | Inr s \<Rightarrow>
       quiescent s \<and> w_out s = [(7, of_char CHR ''A'')] \<and>
       emptyBuffers s = 4 \<and> fullBuffers s = 4259841 \<and>
       emptyBuffers s + fullBuffers s = 4259845"
  by (simp add: one_put_def init_rw_def writer_step_def hits_fullBuffers_def rnd_count_def
      PrepareData_def quiescent_def w_holds_def r_holds_def
      NUM_TOTAL_BUFFERS_def DATA_LENGTH_def)

text \<open>
  Claim C6. What the two threads do when the value \<open>Writer\<close> finds in its uninitialised
  \<open>writePt\<close> is outside the array and the address of that slot is not mapped: under every
  schedule, in every state no Put and no Take has been completed, no line is printed and
  neither thread has left its loop; and once the writer has executed four statements the
  process has died at its first store, whatever is scheduled after. (Lemma
  \<open>twenty_puts_twenty_takes_if_write_cursor_starts_inside\<close> is the 20 iterations of each
  thread, and the end of every run, when the value found is an index of the array.)
\<close>

theorem no_put_no_take_when_first_store_dies:
  assumes "\<not> in_buffer wp"
  shows "(case run_rw rnd dies sched (init_rw wp garbage) of
       Inl e \<Rightarrow> e = OutOfBounds wp
     | Inr s \<Rightarrow>
         w_i s = 0 \<and> r_i s = 0 \<and> w_out s = [] \<and> r_out s = [] \<and>
         w_pc s \<noteq> W_Exited \<and> r_pc s \<noteq> R_Exited) \<and>
    run_rw rnd dies (replicate 4 Writer @ sched) (init_rw wp garbage) = Inl (OutOfBounds wp)"
proof -
  have "case run_rw rnd dies sched (init_rw wp garbage) of
       Inl e \<Rightarrow> e = OutOfBounds wp
     | Inr s \<Rightarrow> before_first_store wp s"
    using before_first_store_run [OF assms before_first_store_init] .
  then have "case run_rw rnd dies sched (init_rw wp garbage) of
       Inl e \<Rightarrow> e = OutOfBounds wp
     | Inr s \<Rightarrow>
         w_i s = 0 \<and> r_i s = 0 \<and> w_out s = [] \<and> r_out s = [] \<and>
         w_pc s \<noteq> W_Exited \<and> r_pc s \<noteq> R_Exited"
    by (auto simp: before_first_store_def split: sum.splits)
  then show ?thesis using first_store_dies [OF assms] by simp
qed

theorem no_put_no_take_when_first_store_dies_witness:
  "\<not> in_buffer 2147483647 \<and>
   (case run_rw rnd_count dies [Reader, Reader, Reader, Writer, Writer, Writer]
       (init_rw 2147483647 zeros) of
      Inl e \<Rightarrow> False
    | Inr s \<Rightarrow> w_pc s = W_Store \<and> r_pc s = R_WaitFull \<and> w_out s = [] \<and> r_out s = []) \<and>
   run_rw rnd_count dies (replicate 4 Writer @ concat (replicate 21 one_put_one_take))
     (init_rw 2147483647 zeros) = Inl (OutOfBounds 2147483647)"
proof -
  have h: "\<not> in_buffer 2147483647" by (simp add: in_buffer_def NUM_TOTAL_BUFFERS_def)
  have a: "case run_rw rnd_count dies [Reader, Reader, Reader, Writer, Writer, Writer]
      (init_rw 2147483647 zeros) of
      Inl e \<Rightarrow> False
    | Inr s \<Rightarrow> w_pc s = W_Store \<and> r_pc s = R_WaitFull"
    by code_simp
  show ?thesis
    using h a
      no_put_no_take_when_first_store_dies [OF h, where rnd = rnd_count and garbage = zeros
        and sched = "[Reader, Reader, Reader, Writer, Writer, Writer]"]
      no_put_no_take_when_first_store_dies [OF h, where rnd = rnd_count and garbage = zeros
        and sched = "concat (replicate 21 one_put_one_take)"]
    by (auto split: sum.splits)
qed

text \<open>
  Claim C9. For every non-negative number \<open>result\<close> that \<open>random_r\<close> stores, the character
  \<open>PrepareData\<close> returns has the code \<open>65 + result mod 25\<close>, and so lies between the
  letters \<open>A\<close> and \<open>Y\<close>, both included.
\<close>

theorem PrepareData_between_A_and_Y:
  assumes "0 \<le> result"
  shows "uint (PrepareData result) = 65 + result mod 25 \<and>
    of_char CHR ''A'' \<le> PrepareData result \<and> PrepareData result \<le> of_char CHR ''Y''"
proof -
  have u: "uint (PrepareData result) = 65 + result mod 25"
    using assms by (rule uint_PrepareData)
  have "0 \<le> result mod 25" "result mod 25 < 25" by simp_all
  then have "uint (of_char CHR ''A'' :: 8 word) \<le> uint (PrepareData result)"
    and "uint (PrepareData result) \<le> uint (of_char CHR ''Y'' :: 8 word)"
    using u by simp_all
  then show ?thesis using u by (simp add: word_le_def)
qed

theorem PrepareData_between_A_and_Y_witness:
  "(0 :: int) \<le> 2147483647 \<and> uint (PrepareData 2147483647) = 87 \<and>
   PrepareData 2147483647 = of_char CHR ''W''"
proof -
  have h: "(0 :: int) \<le> 2147483647" by simp
  have "uint (PrepareData 2147483647) = 87"
    using PrepareData_between_A_and_Y [OF h] by simp
  moreover from this have "PrepareData 2147483647 = of_char CHR ''W''"
    by (simp add: word_uint_eq_iff)
  ultimately show ?thesis by simp
qed

text \<open>
  Claim C10. What \<open>Writer\<close> does when the value it finds in its uninitialised \<open>writePt\<close>
  is 7, or -1, on every machine: after three statements it stands at its first store with
  that index, which is outside the five elements of the array. Where the address is not
  mapped the process dies at that store; where the store lands on an unused byte the
  thread goes on and the line it prints names slot 7.
\<close>

theorem writer_first_store_outside_buffer:
  "(case run_rw rnd m [Writer, Writer, Writer] (init_rw 7 garbage) of
      Inl e \<Rightarrow> False
    | Inr s \<Rightarrow> w_pc s = W_Store \<and> w_i s = 0 \<and> writePt s = 7 \<and> \<not> in_buffer (writePt s)) \<and>
   (case run_rw rnd m [Writer, Writer, Writer] (init_rw (- 1) garbage) of
      Inl e \<Rightarrow> False
    | Inr s \<Rightarrow>
        w_pc s = W_Store \<and> w_i s = 0 \<and> writePt s = - 1 \<and> \<not> in_buffer (writePt s)) \<and>
   run_rw rnd dies [Writer, Writer, Writer, Writer] (init_rw 7 garbage) =
     Inl (OutOfBounds 7) \<and>
   run_rw rnd dies [Writer, Writer, Writer, Writer] (init_rw (- 1) garbage) =
     Inl (OutOfBounds (- 1)) \<and>
   (case run_rw rnd lands_elsewhere (replicate 5 Writer) (init_rw 7 garbage) of
      Inl e \<Rightarrow> False
    | Inr s \<Rightarrow> w_out s = [(7, PrepareData (rnd 0))])"
  by (simp add: eval_nat_numeral init_rw_def writer_step_def dies_def lands_elsewhere_def
      in_buffer_def NUM_TOTAL_BUFFERS_def DATA_LENGTH_def)

end
